theory Spec2Isabelle
  imports Main
begin

section \<open>Events\<close>

text \<open>
  The header \<^verbatim>\<open>systems/framework/event_collection.h\<close> stores events but does not
  declare them: \<^verbatim>\<open>Event\<close>, its \<^verbatim>\<open>TriggerType\<close>, its constructor and
  \<^verbatim>\<open>Clone\<close> live in \<^verbatim>\<open>drake/systems/framework/event.h\<close>.
\<close>

text \<open>
  Modelled from the spec: the trigger classification of \<^verbatim>\<open>event.h\<close>, "a small closed
  set (at minimum: periodic, per-step, forced)".
\<close>

datatype TriggerType = kForced | kPeriodic | kPerStep

text \<open>
  Modelled from the spec: an event of \<^verbatim>\<open>event.h\<close> "carries a trigger classification
  and an attached callback/payload"; data and callback are opaque handles, absent when
  \<open>None\<close>.
\<close>

record Event =
  trigger_type :: TriggerType
  event_data :: "nat option"
  callback :: "nat option"

text \<open>
  Modelled from the spec: the constructor \<^verbatim>\<open>EventType(TriggerType)\<close> of
  \<^verbatim>\<open>event.h\<close>, which builds an event "with no optional attribute, data or callback"
  and the given trigger type.
\<close>

definition Event_ctor :: "TriggerType \<Rightarrow> Event" where
  "Event_ctor t = \<lparr>trigger_type = t, event_data = None, callback = None\<rparr>"

text \<open>
  Modelled from the spec: \<^verbatim>\<open>Event::Clone\<close> of \<^verbatim>\<open>event.h\<close>, "producing an
  independent copy with identical classification and behavior". The copy is a new object;
  the caller below allocates it, \<open>Clone\<close> gives its value.
\<close>

definition Clone :: "Event \<Rightarrow> Event" where
  "Clone e = e"

section \<open>Outcomes of an operation\<close>

text \<open>
  An operation returns normally, throws a C++ exception, aborts the process, runs into
  undefined behaviour, or exceeds the recursion depth it was given. A throw and an abort
  keep the heap as it was at that moment.
\<close>

datatype exception = logic_error | bad_cast | length_error

datatype fault = NullDereference | InvalidPointer | IteratorInvalidated | IntOutOfRange

datatype ('a, 's) outcome =
    Ok 'a 's
  | Throws exception 's
  | Aborts 's
  | Undefined fault
  | OutOfFuel

definition and_then ::
  "('a, 's) outcome \<Rightarrow> ('a \<Rightarrow> 's \<Rightarrow> ('b, 's) outcome) \<Rightarrow> ('b, 's) outcome" where
  "and_then r f = (case r of
       Ok x s \<Rightarrow> f x s
     | Throws e s \<Rightarrow> Throws e s
     | Aborts s \<Rightarrow> Aborts s
     | Undefined u \<Rightarrow> Undefined u
     | OutOfFuel \<Rightarrow> OutOfFuel)"

text \<open>
  Modelled from the spec: the macro \<^verbatim>\<open>DRAKE_DEMAND\<close> of
  \<^verbatim>\<open>drake/common/drake_assert.h\<close>. The doc comments of the header say "Aborts if";
  the spec calls these "fatal precondition violations" that "terminate the operation
  immediately (unrecoverable abort)".
\<close>

definition DRAKE_DEMAND :: "bool \<Rightarrow> 's \<Rightarrow> (unit, 's) outcome" where
  "DRAKE_DEMAND c h = (if c then Ok () h else Aborts h)"

section \<open>The heap of one event type\<close>

text \<open>
  \<^verbatim>\<open>EventCollection<EventType>\<close> is a template: the collections of publish events,
  of discrete update events and of unrestricted update events are objects of three
  unrelated types, so each event type has a heap of its own. An address is an index into
  a store; \<open>None\<close> in a store is a destroyed object, \<open>None\<close> as a pointer is
  \<^verbatim>\<open>nullptr\<close>.
\<close>

type_synonym addr = nat

text \<open>
  \<^verbatim>\<open>LeafEventCollection\<close>: \<^verbatim>\<open>owned_events_\<close> (unique pointers) and \<^verbatim>\<open>events_\<close>
  (raw pointers). \<^verbatim>\<open>DiagramEventCollection\<close>: \<^verbatim>\<open>subevent_collection_\<close> (raw
  pointers) and \<^verbatim>\<open>owned_subevent_collection_\<close> (unique pointers).
\<close>

datatype EventCollection =
    LeafEventCollection (owned_events: "addr list") (events: "addr list")
  | DiagramEventCollection (subevent_collection: "addr option list")
      (owned_subevent_collection: "addr option list")

record kheap =
  event_store :: "Event option list"
  coll_store :: "EventCollection option list"

definition lookup :: "'a option list \<Rightarrow> addr \<Rightarrow> 'a option" where
  "lookup xs a = (if a < length xs then xs ! a else None)"

definition new_event :: "Event \<Rightarrow> kheap \<Rightarrow> addr \<times> kheap" where
  "new_event e h = (length (event_store h), h\<lparr>event_store := event_store h @ [Some e]\<rparr>)"

definition new_collection :: "EventCollection \<Rightarrow> kheap \<Rightarrow> addr \<times> kheap" where
  "new_collection c h = (length (coll_store h), h\<lparr>coll_store := coll_store h @ [Some c]\<rparr>)"

definition put_collection :: "addr \<Rightarrow> EventCollection \<Rightarrow> kheap \<Rightarrow> kheap" where
  "put_collection a c h = h\<lparr>coll_store := (coll_store h)[a := Some c]\<rparr>"

text \<open>Destroying the events a vector of unique pointers owns.\<close>

definition delete_events :: "addr list \<Rightarrow> Event option list \<Rightarrow> Event option list" where
  "delete_events ow es = fold (\<lambda>e s. s[e := None]) ow es"

section \<open>Homogeneous collections\<close>

subsection \<open>Construction\<close>

definition LeafEventCollection_ctor :: "kheap \<Rightarrow> (addr, kheap) outcome" where
  "LeafEventCollection_ctor h =
     (case new_collection (LeafEventCollection [] []) h of (a, h') \<Rightarrow> Ok a h')"

text \<open>
  \<^verbatim>\<open>DiagramEventCollection(int num_subsystems)\<close> sizes both vectors; the slots are
  null. A negative \<^verbatim>\<open>int\<close> converts to a size beyond \<^verbatim>\<open>max_size()\<close>, and the vector's
  constructor throws.
\<close>

definition DiagramEventCollection_ctor :: "int \<Rightarrow> kheap \<Rightarrow> (addr, kheap) outcome" where
  "DiagramEventCollection_ctor num h =
     (if num < 0 then Throws length_error h
      else case new_collection
          (DiagramEventCollection (replicate (nat num) None) (replicate (nat num) None)) h
        of (a, h') \<Rightarrow> Ok a h')"

subsection \<open>add_event\<close>

text \<open>
  The virtual \<^verbatim>\<open>add_event\<close>: the diagram's override throws
  \<^verbatim>\<open>std::logic_error\<close> whatever the argument; the leaf's demands a non-null event
  and pushes it on both vectors.
\<close>

definition add_event :: "addr \<Rightarrow> addr option \<Rightarrow> kheap \<Rightarrow> (unit, kheap) outcome" where
  "add_event a event h = (case lookup (coll_store h) a of
       None \<Rightarrow> Undefined InvalidPointer
     | Some (DiagramEventCollection subs owned) \<Rightarrow> Throws logic_error h
     | Some (LeafEventCollection ow evs) \<Rightarrow>
         and_then (DRAKE_DEMAND (event \<noteq> None) h) (\<lambda>_ h.
           case event of
             None \<Rightarrow> Undefined NullDereference
           | Some e \<Rightarrow> Ok () (put_collection a (LeafEventCollection (ow @ [e]) (evs @ [e])) h)))"

subsection \<open>The diagram's slots\<close>

text \<open>
  The methods of this subsection are not virtual: the receiver is a
  \<^verbatim>\<open>DiagramEventCollection\<close> by its static type. The vectors are sized from an
  \<^verbatim>\<open>int\<close> and never resized, so the cast of \<^verbatim>\<open>size()\<close> back to \<^verbatim>\<open>int\<close> is exact.
\<close>

definition num_subsystems :: "addr \<Rightarrow> kheap \<Rightarrow> (int, kheap) outcome" where
  "num_subsystems a h = (case lookup (coll_store h) a of
       Some (DiagramEventCollection subs owned) \<Rightarrow> Ok (int (length subs)) h
     | _ \<Rightarrow> Undefined InvalidPointer)"

definition set_subevent_collection ::
  "addr \<Rightarrow> int \<Rightarrow> addr option \<Rightarrow> kheap \<Rightarrow> (unit, kheap) outcome" where
  "set_subevent_collection a index sub h =
     and_then (DRAKE_DEMAND (sub \<noteq> None) h) (\<lambda>_ h.
     and_then (num_subsystems a h) (\<lambda>n h.
     and_then (DRAKE_DEMAND (index \<ge> 0 \<and> index < n) h) (\<lambda>_ h.
       case lookup (coll_store h) a of
         Some (DiagramEventCollection subs owned) \<Rightarrow>
           Ok () (put_collection a (DiagramEventCollection (subs[nat index := sub]) owned) h)
       | _ \<Rightarrow> Undefined InvalidPointer)))"

text \<open>
  \<^verbatim>\<open>get_subevent_collection\<close> and \<^verbatim>\<open>get_mutable_subevent_collection\<close> return
  \<^verbatim>\<open>*subevent_collection_[index]\<close>: a null slot is dereferenced.
\<close>

definition get_subevent_collection :: "addr \<Rightarrow> int \<Rightarrow> kheap \<Rightarrow> (addr, kheap) outcome" where
  "get_subevent_collection a index h =
     and_then (num_subsystems a h) (\<lambda>n h.
     and_then (DRAKE_DEMAND (index \<ge> 0 \<and> index < n) h) (\<lambda>_ h.
       case lookup (coll_store h) a of
         Some (DiagramEventCollection subs owned) \<Rightarrow>
           (case subs ! nat index of
              None \<Rightarrow> Undefined NullDereference
            | Some c \<Rightarrow> Ok c h)
       | _ \<Rightarrow> Undefined InvalidPointer))"

subsection \<open>Clear, HasEvents, AddToEnd, SetFrom\<close>

text \<open>
  The range-based \<^verbatim>\<open>for\<close> statements of the diagram call a virtual method on every slot in
  order,
  through a raw pointer: a null slot is a null dereference. The methods recurse through
  the heap, and the first argument bounds the depth of the calls.
\<close>

fun for_each ::
  "(addr \<Rightarrow> 's \<Rightarrow> (unit, 's) outcome) \<Rightarrow> addr option list \<Rightarrow> 's \<Rightarrow> (unit, 's) outcome" where
  "for_each f [] h = Ok () h"
| "for_each f (s # ss) h = (case s of
       None \<Rightarrow> Undefined NullDereference
     | Some c \<Rightarrow> and_then (f c h) (\<lambda>_. for_each f ss))"

fun Clear :: "nat \<Rightarrow> addr \<Rightarrow> kheap \<Rightarrow> (unit, kheap) outcome" where
  "Clear 0 a h = OutOfFuel"
| "Clear (Suc n) a h = (case lookup (coll_store h) a of
       None \<Rightarrow> Undefined InvalidPointer
     | Some (LeafEventCollection ow evs) \<Rightarrow>
         Ok () (put_collection a (LeafEventCollection [] [])
                 (h\<lparr>event_store := delete_events ow (event_store h)\<rparr>))
     | Some (DiagramEventCollection subs owned) \<Rightarrow> for_each (Clear n) subs h)"

text \<open>The diagram's \<^verbatim>\<open>HasEvents\<close> returns at the first child that has events.\<close>

fun any_has_events ::
  "(addr \<Rightarrow> 's \<Rightarrow> (bool, 's) outcome) \<Rightarrow> addr option list \<Rightarrow> 's \<Rightarrow> (bool, 's) outcome" where
  "any_has_events f [] h = Ok False h"
| "any_has_events f (s # ss) h = (case s of
       None \<Rightarrow> Undefined NullDereference
     | Some c \<Rightarrow> and_then (f c h) (\<lambda>b h'. if b then Ok True h' else any_has_events f ss h'))"

fun HasEvents :: "nat \<Rightarrow> addr \<Rightarrow> kheap \<Rightarrow> (bool, kheap) outcome" where
  "HasEvents 0 a h = OutOfFuel"
| "HasEvents (Suc n) a h = (case lookup (coll_store h) a of
       None \<Rightarrow> Undefined InvalidPointer
     | Some (LeafEventCollection ow evs) \<Rightarrow> Ok (evs \<noteq> []) h
     | Some (DiagramEventCollection subs owned) \<Rightarrow> any_has_events (HasEvents n) subs h)"

text \<open>
  The leaf's \<^verbatim>\<open>DoAddToEnd\<close> walks the other leaf's \<^verbatim>\<open>events_\<close>, clones each event
  into a new object and hands the new object to \<^verbatim>\<open>add_event\<close>.
\<close>

fun clone_each :: "addr \<Rightarrow> addr list \<Rightarrow> kheap \<Rightarrow> (unit, kheap) outcome" where
  "clone_each a [] h = Ok () h"
| "clone_each a (other_event # rest) h = (case lookup (event_store h) other_event of
       None \<Rightarrow> Undefined InvalidPointer
     | Some v \<Rightarrow> (case new_event (Clone v) h of (e, h1) \<Rightarrow>
         and_then (add_event a (Some e) h1) (\<lambda>_. clone_each a rest)))"

text \<open>
  The diagram's \<^verbatim>\<open>DoAddToEnd\<close> calls \<^verbatim>\<open>AddToEnd\<close> on slot \<open>i\<close> with the other's slot
  \<open>i\<close>, for \<open>i\<close> from 0: both slots are dereferenced before the call.
\<close>

fun for_each_pair ::
  "(addr \<Rightarrow> addr \<Rightarrow> 's \<Rightarrow> (unit, 's) outcome) \<Rightarrow> (addr option \<times> addr option) list \<Rightarrow> 's
     \<Rightarrow> (unit, 's) outcome" where
  "for_each_pair f [] h = Ok () h"
| "for_each_pair f ((s, t) # ps) h = (case (s, t) of
       (Some c, Some d) \<Rightarrow> and_then (f c d h) (\<lambda>_. for_each_pair f ps)
     | _ \<Rightarrow> Undefined NullDereference)"

text \<open>
  \<^verbatim>\<open>AddToEnd\<close> is \<^verbatim>\<open>DoAddToEnd\<close>, dispatched on the receiver. The
  \<^verbatim>\<open>dynamic_cast\<close> to a reference throws \<^verbatim>\<open>std::bad_cast\<close> when the other
  collection is of the other class; the diagram then demands equal sizes. A leaf merged
  into itself pushes on the vector the loop is iterating over, which invalidates the
  loop's iterators as soon as there is an event to copy.
\<close>

fun AddToEnd :: "nat \<Rightarrow> addr \<Rightarrow> addr \<Rightarrow> kheap \<Rightarrow> (unit, kheap) outcome" where
  "AddToEnd 0 a b h = OutOfFuel"
| "AddToEnd (Suc n) a b h = (case lookup (coll_store h) a of
       None \<Rightarrow> Undefined InvalidPointer
     | Some (LeafEventCollection ow evs) \<Rightarrow> (case lookup (coll_store h) b of
           None \<Rightarrow> Undefined InvalidPointer
         | Some (DiagramEventCollection osubs oowned) \<Rightarrow> Throws bad_cast h
         | Some (LeafEventCollection oow other_events) \<Rightarrow>
             if a = b \<and> other_events \<noteq> [] then Undefined IteratorInvalidated
             else clone_each a other_events h)
     | Some (DiagramEventCollection subs owned) \<Rightarrow> (case lookup (coll_store h) b of
           None \<Rightarrow> Undefined InvalidPointer
         | Some (LeafEventCollection oow other_events) \<Rightarrow> Throws bad_cast h
         | Some (DiagramEventCollection osubs oowned) \<Rightarrow>
             and_then (DRAKE_DEMAND (int (length subs) = int (length osubs)) h) (\<lambda>_.
               for_each_pair (AddToEnd n) (zip subs osubs))))"

definition SetFrom :: "nat \<Rightarrow> addr \<Rightarrow> addr \<Rightarrow> kheap \<Rightarrow> (unit, kheap) outcome" where
  "SetFrom n a b h = and_then (Clear n a h) (\<lambda>_. AddToEnd n a b)"

subsection \<open>The forced-event factory\<close>

definition MakeForcedEventCollection :: "kheap \<Rightarrow> (addr, kheap) outcome" where
  "MakeForcedEventCollection h =
     and_then (LeafEventCollection_ctor h) (\<lambda>ret h.
       case new_event (Event_ctor kForced) h of (event, h) \<Rightarrow>
         and_then (add_event ret (Some event) h) (\<lambda>_. Ok ret))"

definition get_events :: "addr \<Rightarrow> kheap \<Rightarrow> (addr list, kheap) outcome" where
  "get_events a h = (case lookup (coll_store h) a of
       Some (LeafEventCollection ow evs) \<Rightarrow> Ok evs h
     | _ \<Rightarrow> Undefined InvalidPointer)"

section \<open>Heterogeneous bundles\<close>

text \<open>
  A \<^verbatim>\<open>CompositeEventCollection<T>\<close> owns one collection per event type, through
  three unique pointers that its constructor demands to be non-null. The diagram's bundle
  also owns its children's bundles.
\<close>

datatype Kind = Publish | DiscreteUpdate | UnrestrictedUpdate

datatype CompositeEventCollection =
    LeafCompositeEventCollection (publish_events: addr) (discrete_update_events: addr)
      (unrestricted_update_events: addr)
  | DiagramCompositeEventCollection (publish_events: addr) (discrete_update_events: addr)
      (unrestricted_update_events: addr) (owned_subevent_collections: "addr option list")

record heap =
  publish_heap :: kheap
  discrete_update_heap :: kheap
  unrestricted_update_heap :: kheap
  composite_store :: "CompositeEventCollection option list"

fun kind_heap :: "Kind \<Rightarrow> heap \<Rightarrow> kheap" where
  "kind_heap Publish h = publish_heap h"
| "kind_heap DiscreteUpdate h = discrete_update_heap h"
| "kind_heap UnrestrictedUpdate h = unrestricted_update_heap h"

fun set_kind_heap :: "Kind \<Rightarrow> kheap \<Rightarrow> heap \<Rightarrow> heap" where
  "set_kind_heap Publish kh h = h\<lparr>publish_heap := kh\<rparr>"
| "set_kind_heap DiscreteUpdate kh h = h\<lparr>discrete_update_heap := kh\<rparr>"
| "set_kind_heap UnrestrictedUpdate kh h = h\<lparr>unrestricted_update_heap := kh\<rparr>"

text \<open>
  \<^verbatim>\<open>get_publish_events\<close>, \<^verbatim>\<open>get_mutable_publish_events\<close> and their siblings
  return the object behind the bundle's pointer of that kind.
\<close>

fun kind_events :: "Kind \<Rightarrow> CompositeEventCollection \<Rightarrow> addr" where
  "kind_events Publish c = publish_events c"
| "kind_events DiscreteUpdate c = discrete_update_events c"
| "kind_events UnrestrictedUpdate c = unrestricted_update_events c"

text \<open>Running an operation of one event type on the heap of that type.\<close>

definition in_kind :: "Kind \<Rightarrow> (kheap \<Rightarrow> ('a, kheap) outcome) \<Rightarrow> heap \<Rightarrow> ('a, heap) outcome" where
  "in_kind k f h = (case f (kind_heap k h) of
       Ok x kh \<Rightarrow> Ok x (set_kind_heap k kh h)
     | Throws e kh \<Rightarrow> Throws e (set_kind_heap k kh h)
     | Aborts kh \<Rightarrow> Aborts (set_kind_heap k kh h)
     | Undefined u \<Rightarrow> Undefined u
     | OutOfFuel \<Rightarrow> OutOfFuel)"

definition new_composite :: "CompositeEventCollection \<Rightarrow> heap \<Rightarrow> (addr, heap) outcome" where
  "new_composite c h =
     Ok (length (composite_store h)) (h\<lparr>composite_store := composite_store h @ [Some c]\<rparr>)"

subsection \<open>Operations of the base class\<close>

definition Clear_composite :: "nat \<Rightarrow> addr \<Rightarrow> heap \<Rightarrow> (unit, heap) outcome" where
  "Clear_composite n a h = (case lookup (composite_store h) a of
       None \<Rightarrow> Undefined InvalidPointer
     | Some c \<Rightarrow>
         and_then (in_kind Publish (Clear n (publish_events c)) h) (\<lambda>_ h.
         and_then (in_kind DiscreteUpdate (Clear n (discrete_update_events c)) h) (\<lambda>_.
           in_kind UnrestrictedUpdate (Clear n (unrestricted_update_events c)))))"

text \<open>\<^verbatim>\<open>||\<close> evaluates its right operand only when the left one is false.\<close>

definition HasEvents_composite :: "nat \<Rightarrow> addr \<Rightarrow> heap \<Rightarrow> (bool, heap) outcome" where
  "HasEvents_composite n a h = (case lookup (composite_store h) a of
       None \<Rightarrow> Undefined InvalidPointer
     | Some c \<Rightarrow>
         and_then (in_kind Publish (HasEvents n (publish_events c)) h) (\<lambda>b1 h.
           if b1 then Ok True h else
         and_then (in_kind DiscreteUpdate (HasEvents n (discrete_update_events c)) h) (\<lambda>b2 h.
           if b2 then Ok True h else
           in_kind UnrestrictedUpdate (HasEvents n (unrestricted_update_events c)) h)))"

text \<open>
  \<^verbatim>\<open>add_publish_event\<close>, \<^verbatim>\<open>add_discrete_update_event\<close> and
  \<^verbatim>\<open>add_unrestricted_update_event\<close> have one body up to the event type: demand a
  non-null event, \<^verbatim>\<open>dynamic_cast\<close> the collection of that kind to a leaf collection
  (\<^verbatim>\<open>std::bad_cast\<close> otherwise), and add the event to it.
\<close>

definition add_event_of_kind ::
  "Kind \<Rightarrow> addr \<Rightarrow> addr option \<Rightarrow> heap \<Rightarrow> (unit, heap) outcome" where
  "add_event_of_kind k a event h = (case lookup (composite_store h) a of
       None \<Rightarrow> Undefined InvalidPointer
     | Some c \<Rightarrow>
         and_then (DRAKE_DEMAND (event \<noteq> None) h) (\<lambda>_.
           in_kind k (\<lambda>kh. case lookup (coll_store kh) (kind_events k c) of
               None \<Rightarrow> Undefined InvalidPointer
             | Some (DiagramEventCollection subs owned) \<Rightarrow> Throws bad_cast kh
             | Some (LeafEventCollection ow evs) \<Rightarrow> add_event (kind_events k c) event kh)))"


definition add_discrete_update_event ::
  "addr \<Rightarrow> addr option \<Rightarrow> heap \<Rightarrow> (unit, heap) outcome" where
  "add_discrete_update_event = add_event_of_kind DiscreteUpdate"

definition add_unrestricted_update_event ::
  "addr \<Rightarrow> addr option \<Rightarrow> heap \<Rightarrow> (unit, heap) outcome" where
  "add_unrestricted_update_event = add_event_of_kind UnrestrictedUpdate"

definition AddToEnd_composite :: "nat \<Rightarrow> addr \<Rightarrow> addr \<Rightarrow> heap \<Rightarrow> (unit, heap) outcome" where
  "AddToEnd_composite n a b h = (case lookup (composite_store h) a of
       None \<Rightarrow> Undefined InvalidPointer
     | Some c \<Rightarrow> (case lookup (composite_store h) b of
         None \<Rightarrow> Undefined InvalidPointer
       | Some d \<Rightarrow>
         and_then (in_kind Publish
             (AddToEnd n (publish_events c) (publish_events d)) h) (\<lambda>_ h.
         and_then (in_kind DiscreteUpdate
             (AddToEnd n (discrete_update_events c) (discrete_update_events d)) h) (\<lambda>_.
           in_kind UnrestrictedUpdate
             (AddToEnd n (unrestricted_update_events c) (unrestricted_update_events d))))))"

definition SetFrom_composite :: "nat \<Rightarrow> addr \<Rightarrow> addr \<Rightarrow> heap \<Rightarrow> (unit, heap) outcome" where
  "SetFrom_composite n a b h = (case lookup (composite_store h) a of
       None \<Rightarrow> Undefined InvalidPointer
     | Some c \<Rightarrow> (case lookup (composite_store h) b of
         None \<Rightarrow> Undefined InvalidPointer
       | Some d \<Rightarrow>
         and_then (in_kind Publish
             (SetFrom n (publish_events c) (publish_events d)) h) (\<lambda>_ h.
         and_then (in_kind DiscreteUpdate
             (SetFrom n (discrete_update_events c) (discrete_update_events d)) h) (\<lambda>_.
           in_kind UnrestrictedUpdate
             (SetFrom n (unrestricted_update_events c) (unrestricted_update_events d))))))"

subsection \<open>Construction of bundles\<close>

definition LeafCompositeEventCollection_ctor :: "heap \<Rightarrow> (addr, heap) outcome" where
  "LeafCompositeEventCollection_ctor h =
     and_then (in_kind Publish LeafEventCollection_ctor h) (\<lambda>p h.
     and_then (in_kind DiscreteUpdate LeafEventCollection_ctor h) (\<lambda>d h.
     and_then (in_kind UnrestrictedUpdate LeafEventCollection_ctor h) (\<lambda>u.
       new_composite (LeafCompositeEventCollection p d u))))"

text \<open>
  The loop of the diagram bundle's constructor: for child \<open>i\<close>, the slot \<open>i\<close> of each of
  the bundle's three diagram collections is set to the address of the child's collection
  of that kind.
\<close>

fun set_subevents ::
  "addr \<Rightarrow> addr \<Rightarrow> addr \<Rightarrow> nat \<Rightarrow> addr option list \<Rightarrow> heap \<Rightarrow> (unit, heap) outcome" where
  "set_subevents p d u i [] h = Ok () h"
| "set_subevents p d u i (s # ss) h = (case s of
       None \<Rightarrow> Undefined NullDereference
     | Some c \<Rightarrow> (case lookup (composite_store h) c of
         None \<Rightarrow> Undefined InvalidPointer
       | Some child \<Rightarrow>
         and_then (in_kind Publish
             (set_subevent_collection p (int i) (Some (publish_events child))) h) (\<lambda>_ h.
         and_then (in_kind DiscreteUpdate
             (set_subevent_collection d (int i) (Some (discrete_update_events child))) h) (\<lambda>_ h.
         and_then (in_kind UnrestrictedUpdate
             (set_subevent_collection u (int i)
               (Some (unrestricted_update_events child))) h) (\<lambda>_.
           set_subevents p d u (Suc i) ss)))))"

text \<open>
  The constructor passes \<^verbatim>\<open>subevents.size()\<close> to an \<^verbatim>\<open>int\<close> parameter and the loop
  index to another. The model follows the code for sizes that fit a 32-bit \<^verbatim>\<open>int\<close> and
  stops with \<open>IntOutOfRange\<close> beyond.
\<close>

definition DiagramCompositeEventCollection_ctor ::
  "addr option list \<Rightarrow> heap \<Rightarrow> (addr, heap) outcome" where
  "DiagramCompositeEventCollection_ctor subevents h =
     (if length subevents \<ge> 2 ^ 31 then Undefined IntOutOfRange else
      and_then (in_kind Publish
          (DiagramEventCollection_ctor (int (length subevents))) h) (\<lambda>p h.
      and_then (in_kind DiscreteUpdate
          (DiagramEventCollection_ctor (int (length subevents))) h) (\<lambda>d h.
      and_then (in_kind UnrestrictedUpdate
          (DiagramEventCollection_ctor (int (length subevents))) h) (\<lambda>u h.
      and_then (set_subevents p d u 0 subevents h) (\<lambda>_.
        new_composite (DiagramCompositeEventCollection p d u subevents))))))"

text \<open>\<^verbatim>\<open>DiagramCompositeEventCollection::get_mutable_subevent_collection\<close>.\<close>

definition get_mutable_subevent_collection :: "addr \<Rightarrow> int \<Rightarrow> heap \<Rightarrow> (addr, heap) outcome" where
  "get_mutable_subevent_collection a index h = (case lookup (composite_store h) a of
       Some (DiagramCompositeEventCollection p d u owned) \<Rightarrow>
         and_then (DRAKE_DEMAND (index \<ge> 0 \<and> index < int (length owned)) h) (\<lambda>_ h.
           case owned ! nat index of
             None \<Rightarrow> Undefined NullDereference
           | Some c \<Rightarrow> Ok c h)
     | _ \<Rightarrow> Undefined InvalidPointer)"

section \<open>Populated trees\<close>

text \<open>
  A diagram collection is usable once every slot, down to the leaves, points to a
  collection; \<open>populated n\<close> says so for a tree of depth at most \<open>n\<close>.
\<close>

fun populated :: "nat \<Rightarrow> kheap \<Rightarrow> addr \<Rightarrow> bool" where
  "populated 0 h a = False"
| "populated (Suc n) h a = (case lookup (coll_store h) a of
       None \<Rightarrow> False
     | Some (LeafEventCollection ow evs) \<Rightarrow> True
     | Some (DiagramEventCollection subs owned) \<Rightarrow>
         list_all (\<lambda>s. case s of None \<Rightarrow> False | Some c \<Rightarrow> populated n h c) subs)"

text \<open>The collections reachable from a collection through its slots, itself first.\<close>

fun descendants :: "nat \<Rightarrow> kheap \<Rightarrow> addr \<Rightarrow> addr list" where
  "descendants 0 h a = []"
| "descendants (Suc n) h a = a # (case lookup (coll_store h) a of
       Some (DiagramEventCollection subs owned) \<Rightarrow>
         concat (map (\<lambda>s. case s of None \<Rightarrow> [] | Some c \<Rightarrow> descendants n h c) subs)
     | _ \<Rightarrow> [])"

text \<open>Every leaf below a collection holds no event.\<close>

fun all_empty :: "nat \<Rightarrow> kheap \<Rightarrow> addr \<Rightarrow> bool" where
  "all_empty 0 h a = False"
| "all_empty (Suc n) h a = (case lookup (coll_store h) a of
       None \<Rightarrow> False
     | Some (LeafEventCollection ow evs) \<Rightarrow> evs = []
     | Some (DiagramEventCollection subs owned) \<Rightarrow>
         list_all (\<lambda>s. case s of None \<Rightarrow> False | Some c \<Rightarrow> all_empty n h c) subs)"

text \<open>
  What \<^verbatim>\<open>Clear\<close> may do to the collections of a heap: empty a leaf, and nothing
  else.
\<close>

definition cleared :: "kheap \<Rightarrow> kheap \<Rightarrow> bool" where
  "cleared h h' \<longleftrightarrow> length (coll_store h') = length (coll_store h)
     \<and> (\<forall>a < length (coll_store h). coll_store h' ! a = coll_store h ! a
          \<or> (\<exists>ow evs. coll_store h ! a = Some (LeafEventCollection ow evs)
                \<and> coll_store h' ! a = Some (LeafEventCollection [] [])))"

text \<open>
  A bundle as its constructors leave it: the three collections of a leaf bundle are
  leaf collections; those of a diagram bundle are diagram collections whose slot \<open>i\<close>
  is the collection of that kind of child bundle \<open>i\<close>, and the children are bundles of
  that form.
\<close>

definition is_leaf :: "kheap \<Rightarrow> addr \<Rightarrow> bool" where
  "is_leaf h a = (case lookup (coll_store h) a of
       Some (LeafEventCollection ow evs) \<Rightarrow> True
     | _ \<Rightarrow> False)"

definition child_events :: "Kind \<Rightarrow> heap \<Rightarrow> addr option \<Rightarrow> addr option" where
  "child_events k h s = (case s of
       None \<Rightarrow> None
     | Some c \<Rightarrow> map_option (kind_events k) (lookup (composite_store h) c))"

definition aliased :: "Kind \<Rightarrow> heap \<Rightarrow> CompositeEventCollection \<Rightarrow> bool" where
  "aliased k h cell = (case lookup (coll_store (kind_heap k h)) (kind_events k cell) of
       Some (DiagramEventCollection subs owned) \<Rightarrow>
         subs = map (child_events k h) (owned_subevent_collections cell)
     | _ \<Rightarrow> False)"

fun well_formed_bundle :: "nat \<Rightarrow> heap \<Rightarrow> addr \<Rightarrow> bool" where
  "well_formed_bundle 0 h a = False"
| "well_formed_bundle (Suc n) h a = (case lookup (composite_store h) a of
       None \<Rightarrow> False
     | Some (LeafCompositeEventCollection p d u) \<Rightarrow>
         is_leaf (publish_heap h) p \<and> is_leaf (discrete_update_heap h) d
         \<and> is_leaf (unrestricted_update_heap h) u
     | Some (DiagramCompositeEventCollection p d u owned) \<Rightarrow>
         list_all (\<lambda>s. case s of None \<Rightarrow> False | Some c \<Rightarrow> well_formed_bundle n h c) owned
         \<and> aliased Publish h (DiagramCompositeEventCollection p d u owned)
         \<and> aliased DiscreteUpdate h (DiagramCompositeEventCollection p d u owned)
         \<and> aliased UnrestrictedUpdate h (DiagramCompositeEventCollection p d u owned))"

text \<open>The bundles reachable from a bundle through the child bundles it owns.\<close>

fun bundle_descendants :: "nat \<Rightarrow> heap \<Rightarrow> addr \<Rightarrow> addr list" where
  "bundle_descendants 0 h a = []"
| "bundle_descendants (Suc n) h a = a # (case lookup (composite_store h) a of
       Some (DiagramCompositeEventCollection p d u owned) \<Rightarrow>
         concat (map (\<lambda>s. case s of None \<Rightarrow> [] | Some c \<Rightarrow> bundle_descendants n h c) owned)
     | _ \<Rightarrow> [])"

definition bundle_cleared :: "heap \<Rightarrow> heap \<Rightarrow> bool" where
  "bundle_cleared h h' \<longleftrightarrow> composite_store h' = composite_store h
     \<and> (\<forall>k. cleared (kind_heap k h) (kind_heap k h'))"

section \<open>Contents, shapes and ownership\<close>

text \<open>
  The events a collection stores, as a tree: a leaf holds the sequence of its events
  (the values behind \<^verbatim>\<open>get_events()\<close>, \<open>None\<close> for a pointer to no event), a diagram
  holds its children's contents in slot order.
\<close>

datatype content = Events "Event option list" | Children "content list" | Invalid

fun contents :: "nat \<Rightarrow> kheap \<Rightarrow> addr \<Rightarrow> content" where
  "contents 0 h a = Invalid"
| "contents (Suc n) h a = (case lookup (coll_store h) a of
       None \<Rightarrow> Invalid
     | Some (LeafEventCollection ow evs) \<Rightarrow> Events (map (lookup (event_store h)) evs)
     | Some (DiagramEventCollection subs owned) \<Rightarrow>
         Children (map (\<lambda>s. case s of None \<Rightarrow> Invalid | Some c \<Rightarrow> contents n h c) subs))"

text \<open>
  What the spec calls merging: "appending sequence B to sequence A yields A followed by
  B, recursively per child".
\<close>

primrec append_contents :: "content \<Rightarrow> content \<Rightarrow> content" where
  "append_contents (Events xs) c = (case c of Events ys \<Rightarrow> Events (xs @ ys) | _ \<Rightarrow> Invalid)"
| "append_contents (Children ts) c = (case c of
       Children us \<Rightarrow> Children (map2 (\<lambda>f u. f u) (map append_contents ts) us)
     | _ \<Rightarrow> Invalid)"
| "append_contents Invalid c = Invalid"

text \<open>The leaf collections below a collection, in slot order.\<close>

fun leaves :: "nat \<Rightarrow> kheap \<Rightarrow> addr \<Rightarrow> addr list" where
  "leaves 0 h a = []"
| "leaves (Suc n) h a = (case lookup (coll_store h) a of
       None \<Rightarrow> []
     | Some (LeafEventCollection ow evs) \<Rightarrow> [a]
     | Some (DiagramEventCollection subs owned) \<Rightarrow>
         concat (map (\<lambda>s. case s of None \<Rightarrow> [] | Some c \<Rightarrow> leaves n h c) subs))"

text \<open>
  Two collections of equal shape: two leaves, or two diagrams with as many slots, all
  populated, whose children have pairwise equal shape.
\<close>

fun both :: "(addr \<Rightarrow> addr \<Rightarrow> bool) \<Rightarrow> addr option \<times> addr option \<Rightarrow> bool" where
  "both P (Some c, Some d) = P c d"
| "both P (s, t) = False"

fun same_shape :: "nat \<Rightarrow> kheap \<Rightarrow> addr \<Rightarrow> addr \<Rightarrow> bool" where
  "same_shape 0 h a b = False"
| "same_shape (Suc n) h a b = (case lookup (coll_store h) a of
       None \<Rightarrow> False
     | Some (LeafEventCollection ow evs) \<Rightarrow> is_leaf h b
     | Some (DiagramEventCollection subs owned) \<Rightarrow> (case lookup (coll_store h) b of
           Some (DiagramEventCollection osubs oowned) \<Rightarrow>
             length subs = length osubs \<and> list_all (both (same_shape n h)) (zip subs osubs)
         | _ \<Rightarrow> False))"

text \<open>The pointers in a leaf's \<^verbatim>\<open>events_\<close> point to events.\<close>

definition events_live :: "kheap \<Rightarrow> addr \<Rightarrow> bool" where
  "events_live h l = (case lookup (coll_store h) l of
       Some (LeafEventCollection ow evs) \<Rightarrow> list_all (\<lambda>e. lookup (event_store h) e \<noteq> None) evs
     | _ \<Rightarrow> True)"

text \<open>
  Two collections that can be merged: equal shape, no leaf reached twice below the
  receiver, none shared with the other collection, and all event pointers valid.
\<close>

definition mergeable :: "nat \<Rightarrow> kheap \<Rightarrow> addr \<Rightarrow> addr \<Rightarrow> bool" where
  "mergeable n h a b \<longleftrightarrow> same_shape n h a b \<and> distinct (leaves n h a)
     \<and> set (leaves n h a) \<inter> set (leaves n h b) = {}
     \<and> list_all (events_live h) (leaves n h a @ leaves n h b)"

text \<open>
  What \<^verbatim>\<open>AddToEnd\<close> may do to a heap: allocate events, and give a leaf new vectors.
\<close>

definition grows :: "kheap \<Rightarrow> kheap \<Rightarrow> bool" where
  "grows h h' \<longleftrightarrow> (\<exists>es. event_store h' = event_store h @ es)
     \<and> (\<forall>x. case lookup (coll_store h) x of
            None \<Rightarrow> lookup (coll_store h') x = None
          | Some (LeafEventCollection ow evs) \<Rightarrow>
              (\<exists>ow' evs'. lookup (coll_store h') x = Some (LeafEventCollection ow' evs'))
          | Some (DiagramEventCollection subs owned) \<Rightarrow>
              lookup (coll_store h') x = Some (DiagramEventCollection subs owned))"

text \<open>The addresses of the next \<open>k\<close> events allocated.\<close>

definition fresh_events :: "kheap \<Rightarrow> nat \<Rightarrow> addr list" where
  "fresh_events h k = [length (event_store h) ..< length (event_store h) + k]"

text \<open>
  The heap after the events \<open>other_events\<close> were cloned into the leaf at \<open>a\<close>: one new
  event per event, at the next free addresses.
\<close>

definition cloned_heap :: "addr \<Rightarrow> addr list \<Rightarrow> addr list \<Rightarrow> addr list \<Rightarrow> kheap \<Rightarrow> kheap" where
  "cloned_heap a ow evs other_events h =
     h\<lparr>event_store := event_store h
          @ map (\<lambda>e. map_option Clone (lookup (event_store h) e)) other_events,
       coll_store := (coll_store h)[a := Some (LeafEventCollection
          (ow @ [length (event_store h) ..< length (event_store h) + length other_events])
          (evs @ [length (event_store h) ..< length (event_store h) + length other_events]))]\<rparr>"

text \<open>
  Ownership. The events a collection owns are those in \<^verbatim>\<open>owned_events_\<close>; no event
  is owned twice when the owned events of all collections are distinct. A leaf's
  \<^verbatim>\<open>events_\<close> are the pointers of its \<^verbatim>\<open>owned_events_\<close>, which point to events.
\<close>

definition owned_by :: "EventCollection option \<Rightarrow> addr list" where
  "owned_by cell = (case cell of Some (LeafEventCollection ow evs) \<Rightarrow> ow | _ \<Rightarrow> [])"

definition single_owner :: "kheap \<Rightarrow> bool" where
  "single_owner h = distinct (concat (map owned_by (coll_store h)))"

definition leaf_invariant :: "kheap \<Rightarrow> bool" where
  "leaf_invariant h = list_all (\<lambda>cell. case cell of
       Some (LeafEventCollection ow evs) \<Rightarrow>
         evs = ow \<and> list_all (\<lambda>e. lookup (event_store h) e \<noteq> None) ow
     | _ \<Rightarrow> True) (coll_store h)"

text \<open>
  A collection that can be set from another one: equal shape, no leaf reached twice
  below the receiver, none shared with the other collection, the other's event pointers
  valid, and none of them an event the receiver owns (clearing the receiver destroys
  those).
\<close>

definition cell_events :: "kheap \<Rightarrow> addr \<Rightarrow> addr list" where
  "cell_events h l = (case lookup (coll_store h) l of
       Some (LeafEventCollection ow evs) \<Rightarrow> evs
     | _ \<Rightarrow> [])"

definition cell_owned :: "kheap \<Rightarrow> addr \<Rightarrow> addr list" where
  "cell_owned h l = owned_by (lookup (coll_store h) l)"

definition settable :: "nat \<Rightarrow> kheap \<Rightarrow> addr \<Rightarrow> addr \<Rightarrow> bool" where
  "settable n h a b \<longleftrightarrow> same_shape n h a b \<and> distinct (leaves n h a)
     \<and> set (leaves n h a) \<inter> set (leaves n h b) = {}
     \<and> list_all (events_live h) (leaves n h b)
     \<and> set (concat (map (cell_owned h) (leaves n h a)))
         \<inter> set (concat (map (cell_events h) (leaves n h b))) = {}"

section \<open>Example heaps\<close>

text \<open>
  A heap of one event type with three events, two leaf collections that hold them
  (0 and 1), two empty leaf collections (4 and 5), a diagram collection over each pair
  (2 and 6), a diagram collection without children (3), one whose second slot was
  never set (7), and one as the constructor leaves it for two subsystems (8).
\<close>

definition example_kheap :: kheap where
  "example_kheap = \<lparr>
     event_store =
       [Some \<lparr>trigger_type = kPeriodic, event_data = Some 1, callback = Some 1\<rparr>,
        Some \<lparr>trigger_type = kPerStep, event_data = Some 2, callback = Some 2\<rparr>,
        Some \<lparr>trigger_type = kForced, event_data = None, callback = None\<rparr>],
     coll_store =
       [Some (LeafEventCollection [0, 1] [0, 1]),
        Some (LeafEventCollection [2] [2]),
        Some (DiagramEventCollection [Some 0, Some 1] [None, None]),
        Some (DiagramEventCollection [] []),
        Some (LeafEventCollection [] []),
        Some (LeafEventCollection [] []),
        Some (DiagramEventCollection [Some 4, Some 5] [None, None]),
        Some (DiagramEventCollection [Some 0, None] [None, None]),
        Some (DiagramEventCollection [None, None] [None, None])]\<rparr>"

text \<open>
  A heap with that heap for each event type, a leaf bundle for each leaf collection
  (0, 1, 3, 4), the diagram bundles over them (2 and 5) and a diagram bundle without
  children (6).
\<close>

definition example_heap :: heap where
  "example_heap = \<lparr>
     publish_heap = example_kheap,
     discrete_update_heap = example_kheap,
     unrestricted_update_heap = example_kheap,
     composite_store =
       [Some (LeafCompositeEventCollection 0 0 0),
        Some (LeafCompositeEventCollection 1 1 1),
        Some (DiagramCompositeEventCollection 2 2 2 [Some 0, Some 1]),
        Some (LeafCompositeEventCollection 4 4 4),
        Some (LeafCompositeEventCollection 5 5 5),
        Some (DiagramCompositeEventCollection 6 6 6 [Some 3, Some 4]),
        Some (DiagramCompositeEventCollection 3 3 3 [])]\<rparr>"

section \<open>Basic lemmas\<close>

lemma and_then_simps [simp]:
  "and_then (Ok x s) f = f x s"
  "and_then (Throws e s) f = Throws e s"
  "and_then (Aborts s) f = Aborts s"
  "and_then (Undefined u) f = Undefined u"
  "and_then OutOfFuel f = OutOfFuel"
  by (simp_all add: and_then_def)

lemma and_then_Ok_iff:
  "and_then r f = Ok y t \<longleftrightarrow> (\<exists>x s. r = Ok x s \<and> f x s = Ok y t)"
  by (cases r) simp_all

lemma DRAKE_DEMAND_simps [simp]:
  "DRAKE_DEMAND True h = Ok () h"
  "DRAKE_DEMAND False h = Aborts h"
  by (simp_all add: DRAKE_DEMAND_def)

lemma lookup_append_new [simp]: "lookup (xs @ [x]) (length xs) = x"
  by (simp add: lookup_def)

lemma lookup_append_old [simp]: "a < length xs \<Longrightarrow> lookup (xs @ ys) a = lookup xs a"
  by (simp add: lookup_def nth_append)

lemma lookup_update_same [simp]: "a < length xs \<Longrightarrow> lookup (xs[a := x]) a = x"
  by (simp add: lookup_def)

lemma lookup_update_other [simp]: "a \<noteq> b \<Longrightarrow> lookup (xs[b := x]) a = lookup xs a"
  by (simp add: lookup_def)

lemma lookup_Some_less: "lookup xs a = Some x \<Longrightarrow> a < length xs"
  by (simp add: lookup_def split: if_splits)

lemma set_kind_heap_same [simp]: "set_kind_heap k (kind_heap k h) h = h"
  by (cases k) simp_all

lemma kind_heap_set_kind_heap [simp]:
  "kind_heap k (set_kind_heap k' kh h) = (if k = k' then kh else kind_heap k h)"
  by (cases k; cases k') simp_all

lemma composite_store_set_kind_heap [simp]:
  "composite_store (set_kind_heap k kh h) = composite_store h"
  by (cases k) simp_all

lemmas example_heap_simps =
  example_heap_def example_kheap_def lookup_def put_collection_def new_event_def
  in_kind_def

section \<open>The forced-event factory\<close>

text \<open>
  C9. \<^verbatim>\<open>MakeForcedEventCollection\<close> returns, on every heap, a new leaf collection
  that holds exactly one event, a new one; the event's trigger type is \<open>kForced\<close> and it
  has neither data nor callback.
\<close>

theorem forced_event_collection:
  "\<exists>h'. MakeForcedEventCollection h = Ok (length (coll_store h)) h'
     \<and> lookup (coll_store h') (length (coll_store h))
         = Some (LeafEventCollection [length (event_store h)] [length (event_store h)])
     \<and> get_events (length (coll_store h)) h' = Ok [length (event_store h)] h'
     \<and> lookup (event_store h') (length (event_store h))
         = Some \<lparr>trigger_type = kForced, event_data = None, callback = None\<rparr>"
  by (simp add: MakeForcedEventCollection_def LeafEventCollection_ctor_def new_collection_def
      new_event_def add_event_def put_collection_def Event_ctor_def get_events_def)

section \<open>Adding an event to a diagram\<close>




section \<open>Merging diagram collections of different sizes\<close>

text \<open>
  C1, as the claim states it, fails: merging the diagram collection without children
  into the one with two children aborts, through \<^verbatim>\<open>DRAKE_DEMAND\<close>; nothing is thrown.
\<close>

theorem diagram_merge_size_mismatch_counterexample:
  "AddToEnd (Suc 0) 2 3 example_kheap = Aborts example_kheap
   \<and> AddToEnd (Suc 0) 2 3 example_kheap \<noteq> Throws bad_cast example_kheap
   \<and> AddToEnd (Suc 0) 2 3 example_kheap \<noteq> Throws logic_error example_kheap
   \<and> AddToEnd (Suc 0) 2 3 example_kheap \<noteq> Throws length_error example_kheap"
  by (simp add: example_heap_simps)

text \<open>
  C1, amended. For every two diagram collections with different numbers of slots,
  \<^verbatim>\<open>AddToEnd\<close> aborts, and at the abort the heap, so every stored event sequence of
  both operands, is as it was before the call.
\<close>

theorem diagram_merge_size_mismatch_aborts:
  assumes "lookup (coll_store h) a = Some (DiagramEventCollection subs owned)"
    and "lookup (coll_store h) b = Some (DiagramEventCollection osubs oowned)"
    and "length subs \<noteq> length osubs"
  shows "AddToEnd (Suc n) a b h = Aborts h"
  using assms by simp

theorem diagram_merge_size_mismatch_aborts_witness:
  "lookup (coll_store example_kheap) 3 = Some (DiagramEventCollection [] [])
   \<and> lookup (coll_store example_kheap) 2
       = Some (DiagramEventCollection [Some 0, Some 1] [None, None])
   \<and> AddToEnd (Suc 0) 3 2 example_kheap = Aborts example_kheap"
proof -
  have a: "lookup (coll_store example_kheap) 3 = Some (DiagramEventCollection [] [])"
    by (simp add: example_heap_simps)
  have b: "lookup (coll_store example_kheap) 2
      = Some (DiagramEventCollection [Some 0, Some 1] [None, None])"
    by (simp add: example_heap_simps)
  have "length ([] :: addr option list) \<noteq> length [Some (0::addr), Some 1]"
    by simp
  from diagram_merge_size_mismatch_aborts [OF a b this] a b show ?thesis
    by simp
qed

section \<open>Number of subsystems and HasEvents of a diagram collection\<close>

lemma any_has_events_all_populated:
  "\<forall>c\<in>set cs. f c h = Ok (b c) h \<Longrightarrow>
     any_has_events f (map Some cs) h = Ok (\<exists>c\<in>set cs. b c) h"
  by (induction cs) auto

text \<open>
  C7. For every \<open>N \<ge> 0\<close> the constructor builds a diagram collection that reports
  \<open>N\<close> subsystems, setting a slot keeps that number, and a diagram collection whose
  slots are all populated reports as many subsystems as it has children and has events
  exactly when one of its children has.
\<close>

theorem diagram_num_subsystems_and_has_events:
  "(0 \<le> N \<longrightarrow> (\<exists>h'. DiagramEventCollection_ctor N h = Ok (length (coll_store h)) h'
        \<and> num_subsystems (length (coll_store h)) h' = Ok N h'))
   \<and> (num_subsystems a h = Ok m h \<and> set_subevent_collection a i s h = Ok () h1
        \<longrightarrow> num_subsystems a h1 = Ok m h1)
   \<and> (lookup (coll_store h) a = Some (DiagramEventCollection (map Some cs) owned)
        \<and> (\<forall>c\<in>set cs. HasEvents n c h = Ok (b c) h)
        \<longrightarrow> num_subsystems a h = Ok (int (length cs)) h
          \<and> HasEvents (Suc n) a h = Ok (\<exists>c\<in>set cs. b c) h)"
proof (intro conjI impI)
  assume "0 \<le> N"
  then show "\<exists>h'. DiagramEventCollection_ctor N h = Ok (length (coll_store h)) h'
        \<and> num_subsystems (length (coll_store h)) h' = Ok N h'"
    by (simp add: DiagramEventCollection_ctor_def new_collection_def num_subsystems_def)
next
  assume *: "num_subsystems a h = Ok m h \<and> set_subevent_collection a i s h = Ok () h1"
  then obtain subs owned where
    cell: "lookup (coll_store h) a = Some (DiagramEventCollection subs owned)"
    and m: "m = int (length subs)"
    by (auto simp: num_subsystems_def split: option.splits EventCollection.splits)
  from cell have less: "a < length (coll_store h)"
    by (rule lookup_Some_less)
  from * cell have "h1 = put_collection a (DiagramEventCollection (subs[nat i := s]) owned) h"
    by (auto simp: set_subevent_collection_def num_subsystems_def DRAKE_DEMAND_def
        split: if_splits)
  with less m show "num_subsystems a h1 = Ok m h1"
    by (simp add: num_subsystems_def put_collection_def)
next
  assume *: "lookup (coll_store h) a = Some (DiagramEventCollection (map Some cs) owned)
        \<and> (\<forall>c\<in>set cs. HasEvents n c h = Ok (b c) h)"
  then show "num_subsystems a h = Ok (int (length cs)) h"
    by (simp add: num_subsystems_def)
  from * show "HasEvents (Suc n) a h = Ok (\<exists>c\<in>set cs. b c) h"
    by (simp add: any_has_events_all_populated)
qed

theorem diagram_num_subsystems_and_has_events_witness:
  "(\<exists>h'. DiagramEventCollection_ctor 2 example_kheap = Ok 9 h' \<and> num_subsystems 9 h' = Ok 2 h')
   \<and> (\<exists>h1. set_subevent_collection 7 1 (Some 1) example_kheap = Ok () h1
         \<and> num_subsystems 7 h1 = Ok 2 h1)
   \<and> num_subsystems 6 example_kheap = Ok 2 example_kheap
   \<and> HasEvents (Suc (Suc 0)) 6 example_kheap = Ok False example_kheap
   \<and> num_subsystems 2 example_kheap = Ok 2 example_kheap
   \<and> HasEvents (Suc (Suc 0)) 2 example_kheap = Ok True example_kheap"
proof -
  note T = diagram_num_subsystems_and_has_events
  have 1: "\<exists>h'. DiagramEventCollection_ctor 2 example_kheap = Ok 9 h'
      \<and> num_subsystems 9 h' = Ok 2 h'"
  proof -
    have "length (coll_store example_kheap) = 9"
      by (simp add: example_kheap_def)
    with T [where N = 2 and h = example_kheap, THEN conjunct1] show ?thesis
      by simp
  qed
  have n: "num_subsystems 7 example_kheap = Ok 2 example_kheap"
    by (simp add: num_subsystems_def example_heap_simps)
  have "\<exists>h1. set_subevent_collection 7 1 (Some 1) example_kheap = Ok () h1"
    by (simp add: set_subevent_collection_def num_subsystems_def example_heap_simps)
  then obtain h1 where s: "set_subevent_collection 7 1 (Some 1) example_kheap = Ok () h1"
    by blast
  from T [where h = example_kheap and a = 7 and m = 2 and i = 1 and s = "Some 1" and ?h1.0 = h1,
      THEN conjunct2, THEN conjunct1] n s
  have 2: "\<exists>h1. set_subevent_collection 7 1 (Some 1) example_kheap = Ok () h1
      \<and> num_subsystems 7 h1 = Ok 2 h1"
    by blast
  have 3: "num_subsystems 6 example_kheap = Ok 2 example_kheap
      \<and> HasEvents (Suc (Suc 0)) 6 example_kheap = Ok False example_kheap"
    using T [where h = example_kheap and a = 6 and cs = "[4, 5]" and owned = "[None, None]"
        and n = "Suc 0" and b = "\<lambda>_. False", THEN conjunct2, THEN conjunct2]
    by (simp add: example_heap_simps)
  have 4: "num_subsystems 2 example_kheap = Ok 2 example_kheap
      \<and> HasEvents (Suc (Suc 0)) 2 example_kheap = Ok True example_kheap"
    using T [where h = example_kheap and a = 2 and cs = "[0, 1]" and owned = "[None, None]"
        and n = "Suc 0" and b = "\<lambda>_. True", THEN conjunct2, THEN conjunct2]
    by (simp add: example_heap_simps)
  from 1 2 3 4 show ?thesis
    by blast
qed

section \<open>Clearing\<close>

lemma list_all_slot_mono:
  "list_all (\<lambda>s. case s of None \<Rightarrow> False | Some c \<Rightarrow> P c) subs \<Longrightarrow> (\<And>c. P c \<Longrightarrow> Q c) \<Longrightarrow>
     list_all (\<lambda>s. case s of None \<Rightarrow> False | Some c \<Rightarrow> Q c) subs"
  by (auto simp: list_all_iff split: option.splits)

lemma cleared_refl: "cleared h h"
  by (simp add: cleared_def)

lemma cleared_trans: "cleared h1 h2 \<Longrightarrow> cleared h2 h3 \<Longrightarrow> cleared h1 h3"
  unfolding cleared_def by (metis option.inject EventCollection.inject(1))

lemma cleared_lookup:
  "cleared h h' \<Longrightarrow> lookup (coll_store h) a = Some (DiagramEventCollection subs owned)
     \<Longrightarrow> lookup (coll_store h') a = Some (DiagramEventCollection subs owned)"
  unfolding cleared_def lookup_def by (auto split: if_splits)

lemma cleared_lookup_leaf:
  "cleared h h' \<Longrightarrow> lookup (coll_store h) a = Some (LeafEventCollection ow evs)
     \<Longrightarrow> lookup (coll_store h') a = Some (LeafEventCollection ow evs)
       \<or> lookup (coll_store h') a = Some (LeafEventCollection [] [])"
  unfolding cleared_def lookup_def by (auto split: if_splits)

lemma cleared_lookup_None:
  "cleared h h' \<Longrightarrow> lookup (coll_store h) a = None \<Longrightarrow> lookup (coll_store h') a = None"
  unfolding cleared_def lookup_def by (auto split: if_splits)

lemma populated_cleared: "cleared h h' \<Longrightarrow> populated n h a \<Longrightarrow> populated n h' a"
proof (induction n arbitrary: a)
  case 0
  then show ?case by simp
next
  case (Suc n)
  show ?case
  proof (cases "lookup (coll_store h) a")
    case None
    with Suc.prems show ?thesis by simp
  next
    case (Some cell)
    show ?thesis
    proof (cases cell)
      case (LeafEventCollection ow evs)
      with Some cleared_lookup_leaf [OF Suc.prems(1), of a ow evs] show ?thesis
        by auto
    next
      case (DiagramEventCollection subs owned)
      with Some Suc.prems have "list_all (\<lambda>s. case s of None \<Rightarrow> False | Some c \<Rightarrow> populated n h c) subs"
        by simp
      then have "list_all (\<lambda>s. case s of None \<Rightarrow> False | Some c \<Rightarrow> populated n h' c) subs"
        using Suc.IH [OF Suc.prems(1)] by (auto simp: list_all_iff split: option.splits)
      with Some DiagramEventCollection cleared_lookup [OF Suc.prems(1)] show ?thesis
        by simp
    qed
  qed
qed

lemma all_empty_cleared: "cleared h h' \<Longrightarrow> all_empty n h a \<Longrightarrow> all_empty n h' a"
proof (induction n arbitrary: a)
  case 0
  then show ?case by simp
next
  case (Suc n)
  show ?case
  proof (cases "lookup (coll_store h) a")
    case None
    with Suc.prems show ?thesis by simp
  next
    case (Some cell)
    show ?thesis
    proof (cases cell)
      case (LeafEventCollection ow evs)
      with Some Suc.prems cleared_lookup_leaf [OF Suc.prems(1), of a ow evs] show ?thesis
        by auto
    next
      case (DiagramEventCollection subs owned)
      with Some Suc.prems have "list_all (\<lambda>s. case s of None \<Rightarrow> False | Some c \<Rightarrow> all_empty n h c) subs"
        by simp
      then have "list_all (\<lambda>s. case s of None \<Rightarrow> False | Some c \<Rightarrow> all_empty n h' c) subs"
        using Suc.IH [OF Suc.prems(1)] by (auto simp: list_all_iff split: option.splits)
      with Some DiagramEventCollection cleared_lookup [OF Suc.prems(1)] show ?thesis
        by simp
    qed
  qed
qed

lemma descendants_cleared: "cleared h h' \<Longrightarrow> descendants n h' a = descendants n h a"
proof (induction n arbitrary: a)
  case 0
  then show ?case by simp
next
  case (Suc n)
  show ?case
  proof (cases "lookup (coll_store h) a")
    case None
    with cleared_lookup_None [OF Suc.prems] show ?thesis by simp
  next
    case (Some cell)
    show ?thesis
    proof (cases cell)
      case (LeafEventCollection ow evs)
      with Some cleared_lookup_leaf [OF Suc.prems, of a ow evs] show ?thesis
        by auto
    next
      case (DiagramEventCollection subs owned)
      have "descendants n h' = descendants n h"
        by (rule ext) (rule Suc.IH [OF Suc.prems])
      with Some DiagramEventCollection cleared_lookup [OF Suc.prems, of a subs owned]
      show ?thesis
        by simp
    qed
  qed
qed

lemma for_each_Clear:
  assumes step: "\<And>c h. populated n h c \<Longrightarrow> \<exists>h'. f c h = Ok () h' \<and> cleared h h' \<and> all_empty n h' c"
  shows "list_all (\<lambda>s. case s of None \<Rightarrow> False | Some c \<Rightarrow> populated n h c) subs \<Longrightarrow>
     \<exists>h'. for_each f subs h = Ok () h' \<and> cleared h h'
        \<and> list_all (\<lambda>s. case s of None \<Rightarrow> False | Some c \<Rightarrow> all_empty n h' c) subs"
proof (induction subs arbitrary: h)
  case Nil
  then show ?case by (simp add: cleared_refl)
next
  case (Cons s subs)
  then obtain c where s: "s = Some c" and pc: "populated n h c"
    and rest: "list_all (\<lambda>s. case s of None \<Rightarrow> False | Some c \<Rightarrow> populated n h c) subs"
    by (auto split: option.splits)
  from step [OF pc] obtain h1 where h1: "f c h = Ok () h1" "cleared h h1" "all_empty n h1 c"
    by blast
  from rest have "list_all (\<lambda>s. case s of None \<Rightarrow> False | Some c \<Rightarrow> populated n h1 c) subs"
    using populated_cleared [OF h1(2)] by (auto simp: list_all_iff split: option.splits)
  from Cons.IH [OF this] obtain h2 where h2: "for_each f subs h1 = Ok () h2" "cleared h1 h2"
    "list_all (\<lambda>s. case s of None \<Rightarrow> False | Some c \<Rightarrow> all_empty n h2 c) subs"
    by blast
  from h1 h2 s show ?case
    by (auto intro: cleared_trans all_empty_cleared)
qed

lemma cleared_put_leaf:
  "lookup (coll_store h) a = Some (LeafEventCollection ow evs) \<Longrightarrow>
     cleared h (put_collection a (LeafEventCollection [] []) (h\<lparr>event_store := es\<rparr>))"
  unfolding cleared_def put_collection_def
  by (auto simp: nth_list_update lookup_def split: if_splits)

lemma Clear_populated:
  "populated n h a \<Longrightarrow> \<exists>h'. Clear n a h = Ok () h' \<and> cleared h h' \<and> all_empty n h' a"
proof (induction n arbitrary: a h)
  case 0
  then show ?case by simp
next
  case (Suc n)
  show ?case
  proof (cases "lookup (coll_store h) a")
    case None
    with Suc.prems show ?thesis by simp
  next
    case (Some cell)
    show ?thesis
    proof (cases cell)
      case (LeafEventCollection ow evs)
      with Some cleared_put_leaf [of h a ow evs] lookup_Some_less [of "coll_store h" a] show ?thesis
        by (simp add: put_collection_def)
    next
      case (DiagramEventCollection subs owned)
      with Some Suc.prems
      have "list_all (\<lambda>s. case s of None \<Rightarrow> False | Some c \<Rightarrow> populated n h c) subs"
        by simp
      from for_each_Clear [of n "Clear n", OF Suc.IH this]
      obtain h' where h': "for_each (Clear n) subs h = Ok () h'" "cleared h h'"
        "list_all (\<lambda>s. case s of None \<Rightarrow> False | Some c \<Rightarrow> all_empty n h' c) subs"
        by blast
      with Some DiagramEventCollection cleared_lookup [OF h'(2)] show ?thesis
        by auto
    qed
  qed
qed

lemma all_empty_Suc: "all_empty n h a \<Longrightarrow> all_empty (Suc n) h a"
proof (induction n arbitrary: a)
  case 0
  then show ?case by simp
next
  case (Suc n)
  show ?case
  proof (cases "lookup (coll_store h) a")
    case None
    with Suc.prems show ?thesis by simp
  next
    case (Some cell)
    show ?thesis
    proof (cases cell)
      case (LeafEventCollection ow evs)
      with Some Suc.prems show ?thesis by simp
    next
      case (DiagramEventCollection subs owned)
      with Some Suc.prems
      have "list_all (\<lambda>s. case s of None \<Rightarrow> False | Some c \<Rightarrow> all_empty n h c) subs"
        by simp
      then have "list_all (\<lambda>s. case s of None \<Rightarrow> False | Some c \<Rightarrow> all_empty (Suc n) h c) subs"
        by (rule list_all_slot_mono) (rule Suc.IH)
      with Some DiagramEventCollection show ?thesis
        using all_empty.simps(2) [of "Suc n" h a] by simp
    qed
  qed
qed

lemma any_has_events_all_empty:
  assumes step: "\<And>c. all_empty n h c \<Longrightarrow> f c h = Ok False h"
  shows "list_all (\<lambda>s. case s of None \<Rightarrow> False | Some c \<Rightarrow> all_empty n h c) subs \<Longrightarrow>
    any_has_events f subs h = Ok False h"
  by (induction subs) (auto split: option.splits simp: step)

lemma HasEvents_all_empty: "all_empty n h a \<Longrightarrow> HasEvents n a h = Ok False h"
proof (induction n arbitrary: a)
  case 0
  then show ?case by simp
next
  case (Suc n)
  then show ?case
    by (auto split: option.splits EventCollection.splits intro: any_has_events_all_empty)
qed

lemma all_empty_descendants:
  "all_empty n h a \<Longrightarrow> c \<in> set (descendants n h a) \<Longrightarrow> all_empty n h c"
proof (induction n arbitrary: a)
  case 0
  then show ?case by simp
next
  case (Suc n)
  show ?case
  proof (cases "c = a")
    case True
    with Suc.prems show ?thesis by simp
  next
    case False
    with Suc.prems obtain subs owned s d where
      cell: "lookup (coll_store h) a = Some (DiagramEventCollection subs owned)"
      and s: "s \<in> set subs" "s = Some d" "c \<in> set (descendants n h d)"
      by (auto split: option.splits EventCollection.splits)
    with Suc.prems have "all_empty n h d"
      by (auto simp: list_all_iff)
    from Suc.IH [OF this s(3)] show ?thesis
      by (rule all_empty_Suc)
  qed
qed

lemma Kind_all: "(\<forall>k. P k) \<longleftrightarrow> P Publish \<and> P DiscreteUpdate \<and> P UnrestrictedUpdate"
  by (metis Kind.exhaust)

lemma is_leaf_cleared: "cleared h h' \<Longrightarrow> is_leaf h a \<Longrightarrow> is_leaf h' a"
  using cleared_lookup_leaf [of h h' a]
  by (auto simp: is_leaf_def split: option.splits EventCollection.splits)

lemma child_events_cleared:
  "bundle_cleared h h' \<Longrightarrow> child_events k h' = child_events k h"
  by (auto simp: child_events_def bundle_cleared_def fun_eq_iff split: option.splits)

lemma aliased_cleared: "bundle_cleared h h' \<Longrightarrow> aliased k h cell \<Longrightarrow> aliased k h' cell"
proof -
  assume bc: "bundle_cleared h h'" and al: "aliased k h cell"
  then obtain subs owned where
    cell: "lookup (coll_store (kind_heap k h)) (kind_events k cell)
       = Some (DiagramEventCollection subs owned)"
    and subs: "subs = map (child_events k h) (owned_subevent_collections cell)"
    by (auto simp: aliased_def split: option.splits EventCollection.splits)
  from bc have "cleared (kind_heap k h) (kind_heap k h')"
    by (simp add: bundle_cleared_def)
  from cleared_lookup [OF this cell] subs child_events_cleared [OF bc] show ?thesis
    by (simp add: aliased_def)
qed

lemma well_formed_bundle_cleared:
  "bundle_cleared h h' \<Longrightarrow> well_formed_bundle n h a \<Longrightarrow> well_formed_bundle n h' a"
proof (induction n arbitrary: a)
  case 0
  then show ?case by simp
next
  case (Suc n)
  from Suc.prems(1) have cs: "composite_store h' = composite_store h"
    and cl: "\<And>k. cleared (kind_heap k h) (kind_heap k h')"
    by (simp_all add: bundle_cleared_def)
  show ?case
  proof (cases "lookup (composite_store h) a")
    case None
    with Suc.prems show ?thesis by simp
  next
    case (Some cell)
    show ?thesis
    proof (cases cell)
      case (LeafCompositeEventCollection p d u)
      with Some Suc.prems cs cl [of Publish] cl [of DiscreteUpdate] cl [of UnrestrictedUpdate]
      show ?thesis
        by (auto intro: is_leaf_cleared)
    next
      case (DiagramCompositeEventCollection p d u owned)
      with Some Suc.prems
      have ch: "list_all (\<lambda>s. case s of None \<Rightarrow> False | Some c \<Rightarrow> well_formed_bundle n h c) owned"
        and al: "\<forall>k. aliased k h cell"
        by (simp_all add: Kind_all)
      from ch have "list_all (\<lambda>s. case s of None \<Rightarrow> False | Some c \<Rightarrow> well_formed_bundle n h' c) owned"
        by (rule list_all_slot_mono) (rule Suc.IH [OF Suc.prems(1)])
      with Some DiagramCompositeEventCollection cs aliased_cleared [OF Suc.prems(1) al [rule_format]]
      show ?thesis
        by simp
    qed
  qed
qed

lemma well_formed_bundle_populated:
  "well_formed_bundle n h a \<Longrightarrow> lookup (composite_store h) a = Some cell \<Longrightarrow>
     populated n (kind_heap k h) (kind_events k cell)"
proof (induction n arbitrary: a cell)
  case 0
  then show ?case by simp
next
  case (Suc n)
  show ?case
  proof (cases cell)
    case (LeafCompositeEventCollection p d u)
    with Suc.prems show ?thesis
      by (cases k) (auto simp: is_leaf_def split: option.splits EventCollection.splits)
  next
    case (DiagramCompositeEventCollection p d u owned)
    with Suc.prems
    have ch: "list_all (\<lambda>s. case s of None \<Rightarrow> False | Some c \<Rightarrow> well_formed_bundle n h c) owned"
      and "\<forall>k. aliased k h cell"
      by (simp_all add: Kind_all)
    then have al: "aliased k h cell"
      by simp
    from al DiagramCompositeEventCollection obtain ow where
      root: "lookup (coll_store (kind_heap k h)) (kind_events k cell)
         = Some (DiagramEventCollection (map (child_events k h) owned) ow)"
      by (auto simp: aliased_def split: option.splits EventCollection.splits)
    have "list_all (\<lambda>s. case s of None \<Rightarrow> False | Some c \<Rightarrow> populated n (kind_heap k h) c)
        (map (child_events k h) owned)"
      unfolding list_all_iff
    proof
      fix s assume "s \<in> set (map (child_events k h) owned)"
      then obtain t where t: "t \<in> set owned" "s = child_events k h t"
        by auto
      with ch obtain c where c: "t = Some c" "well_formed_bundle n h c"
        by (auto simp: list_all_iff split: option.splits)
      then obtain cc where cc: "lookup (composite_store h) c = Some cc"
        by (cases n) (auto split: option.splits)
      from Suc.IH [OF c(2) cc] t c cc
      show "case s of None \<Rightarrow> False | Some c \<Rightarrow> populated n (kind_heap k h) c"
        by (simp add: child_events_def)
    qed
    with root show ?thesis
      by simp
  qed
qed

lemma all_empty_bundle_descendants:
  "well_formed_bundle n h a \<Longrightarrow> lookup (composite_store h) a = Some cell \<Longrightarrow>
   all_empty n (kind_heap k h) (kind_events k cell) \<Longrightarrow>
   c \<in> set (bundle_descendants n h a) \<Longrightarrow>
   \<exists>cc. lookup (composite_store h) c = Some cc \<and> all_empty n (kind_heap k h) (kind_events k cc)"
proof (induction n arbitrary: a cell)
  case 0
  then show ?case by simp
next
  case (Suc n)
  show ?case
  proof (cases "c = a")
    case True
    with Suc.prems show ?thesis by simp
  next
    case False
    with Suc.prems(2,4) obtain p d u owned t where
      cell: "cell = DiagramCompositeEventCollection p d u owned"
      and t: "Some t \<in> set owned" "c \<in> set (bundle_descendants n h t)"
      by (auto split: option.splits CompositeEventCollection.splits)
    with Suc.prems
    have ch: "list_all (\<lambda>s. case s of None \<Rightarrow> False | Some c \<Rightarrow> well_formed_bundle n h c) owned"
      and "\<forall>k. aliased k h cell"
      by (simp_all add: Kind_all)
    then have al: "aliased k h cell"
      by simp
    from al cell obtain ow where
      root: "lookup (coll_store (kind_heap k h)) (kind_events k cell)
         = Some (DiagramEventCollection (map (child_events k h) owned) ow)"
      by (auto simp: aliased_def split: option.splits EventCollection.splits)
    from ch t(1) have wt: "well_formed_bundle n h t"
      by (auto simp: list_all_iff)
    then obtain tc where tc: "lookup (composite_store h) t = Some tc"
      by (cases n) (auto split: option.splits)
    from Suc.prems(3) root t(1) have "case child_events k h (Some t) of None \<Rightarrow> False
        | Some x \<Rightarrow> all_empty n (kind_heap k h) x"
      by (auto simp: list_all_iff)
    with tc have "all_empty n (kind_heap k h) (kind_events k tc)"
      by (simp add: child_events_def)
    from Suc.IH [OF wt tc this t(2)] show ?thesis
      using all_empty_Suc by blast
  qed
qed

lemma in_kind_Clear:
  assumes "populated n (kind_heap k h) x"
  shows "\<exists>kh. in_kind k (Clear n x) h = Ok () (set_kind_heap k kh h)
     \<and> cleared (kind_heap k h) kh \<and> all_empty n kh x"
  using Clear_populated [OF assms] by (auto simp: in_kind_def)

lemma Clear_composite_well_formed:
  assumes wf: "well_formed_bundle n h a" and cell: "lookup (composite_store h) a = Some cell"
  shows "\<exists>h'. Clear_composite n a h = Ok () h' \<and> bundle_cleared h h'
     \<and> (\<forall>k. all_empty n (kind_heap k h') (kind_events k cell))"
proof -
  note pop = well_formed_bundle_populated [OF wf cell]
  from in_kind_Clear [OF pop [of Publish]] obtain kp where
    kp: "in_kind Publish (Clear n (publish_events cell)) h = Ok () (set_kind_heap Publish kp h)"
      "cleared (publish_heap h) kp" "all_empty n kp (publish_events cell)"
    by auto
  let ?h1 = "set_kind_heap Publish kp h"
  have "populated n (kind_heap DiscreteUpdate ?h1) (kind_events DiscreteUpdate cell)"
    using pop [of DiscreteUpdate] by simp
  from in_kind_Clear [OF this] obtain kd where
    kd: "in_kind DiscreteUpdate (Clear n (discrete_update_events cell)) ?h1
        = Ok () (set_kind_heap DiscreteUpdate kd ?h1)"
      "cleared (discrete_update_heap h) kd" "all_empty n kd (discrete_update_events cell)"
    by auto
  let ?h2 = "set_kind_heap DiscreteUpdate kd ?h1"
  have "populated n (kind_heap UnrestrictedUpdate ?h2) (kind_events UnrestrictedUpdate cell)"
    using pop [of UnrestrictedUpdate] by simp
  from in_kind_Clear [OF this] obtain ku where
    ku: "in_kind UnrestrictedUpdate (Clear n (unrestricted_update_events cell)) ?h2
        = Ok () (set_kind_heap UnrestrictedUpdate ku ?h2)"
      "cleared (unrestricted_update_heap h) ku" "all_empty n ku (unrestricted_update_events cell)"
    by auto
  let ?h3 = "set_kind_heap UnrestrictedUpdate ku ?h2"
  have "Clear_composite n a h = Ok () ?h3"
    using cell kp(1) kd(1) ku(1) by (simp add: Clear_composite_def)
  moreover have "bundle_cleared h ?h3"
    using kp(2) kd(2) ku(2) by (simp add: bundle_cleared_def Kind_all)
  moreover have "\<forall>k. all_empty n (kind_heap k ?h3) (kind_events k cell)"
    using kp(3) kd(3) ku(3) by (simp add: Kind_all)
  ultimately show ?thesis
    by blast
qed

lemma HasEvents_composite_all_empty:
  assumes "lookup (composite_store h) c = Some cc"
    and "\<And>k. all_empty n (kind_heap k h) (kind_events k cc)"
  shows "HasEvents_composite n c h = Ok False h"
  using assms(1) HasEvents_all_empty [OF assms(2) [of Publish]]
    HasEvents_all_empty [OF assms(2) [of DiscreteUpdate]]
    HasEvents_all_empty [OF assms(2) [of UnrestrictedUpdate]]
  by (simp add: HasEvents_composite_def in_kind_def)

lemma bundle_descendants_cong:
  "composite_store h' = composite_store h \<Longrightarrow>
     bundle_descendants n h' a = bundle_descendants n h a"
proof (induction n arbitrary: a)
  case 0
  then show ?case by simp
next
  case (Suc n)
  have "bundle_descendants n h' = bundle_descendants n h"
    by (rule ext) (rule Suc.IH [OF Suc.prems])
  with Suc.prems show ?case
    by (simp split: option.splits CompositeEventCollection.splits)
qed

text \<open>
  C6. Clearing a collection whose slots are all populated returns, leaves the tree as
  it was, and afterwards the collection and every collection below it report no events.
  Clearing a bundle built by the constructors returns, and afterwards the bundle and
  every bundle below it report no events.
\<close>

theorem Clear_then_no_events:
  "(populated n kh a \<longrightarrow> (\<exists>kh'. Clear n a kh = Ok () kh'
       \<and> descendants n kh' a = descendants n kh a
       \<and> (\<forall>c \<in> set (descendants n kh a). HasEvents n c kh' = Ok False kh')))
   \<and> (well_formed_bundle n h b \<longrightarrow> (\<exists>h'. Clear_composite n b h = Ok () h'
       \<and> bundle_descendants n h' b = bundle_descendants n h b
       \<and> (\<forall>c \<in> set (bundle_descendants n h b). HasEvents_composite n c h' = Ok False h')))"
proof (intro conjI impI)
  assume "populated n kh a"
  from Clear_populated [OF this] obtain kh' where
    kh': "Clear n a kh = Ok () kh'" "cleared kh kh'" "all_empty n kh' a"
    by blast
  have "HasEvents n c kh' = Ok False kh'" if "c \<in> set (descendants n kh a)" for c
    using that kh'(3) descendants_cleared [OF kh'(2), of n a]
    by (auto dest: all_empty_descendants intro: HasEvents_all_empty)
  with kh'(1) descendants_cleared [OF kh'(2)]
  show "\<exists>kh'. Clear n a kh = Ok () kh'
       \<and> descendants n kh' a = descendants n kh a
       \<and> (\<forall>c \<in> set (descendants n kh a). HasEvents n c kh' = Ok False kh')"
    by blast
next
  assume wf: "well_formed_bundle n h b"
  then obtain cell where cell: "lookup (composite_store h) b = Some cell"
    by (cases n) (auto split: option.splits)
  from Clear_composite_well_formed [OF wf cell] obtain h' where
    h': "Clear_composite n b h = Ok () h'" "bundle_cleared h h'"
      "\<And>k. all_empty n (kind_heap k h') (kind_events k cell)"
    by blast
  from h'(2) have cs: "composite_store h' = composite_store h"
    by (simp add: bundle_cleared_def)
  with cell have cell': "lookup (composite_store h') b = Some cell"
    by simp
  note same = bundle_descendants_cong [OF cs, of n b]
  have "HasEvents_composite n c h' = Ok False h'" if "c \<in> set (bundle_descendants n h b)" for c
  proof -
    from that same have c: "c \<in> set (bundle_descendants n h' b)"
      by simp
    from all_empty_bundle_descendants [OF well_formed_bundle_cleared [OF h'(2) wf] cell' h'(3) c]
    obtain cc where cc: "lookup (composite_store h') c = Some cc"
      by blast
    have "all_empty n (kind_heap k h') (kind_events k cc)" for k
      using all_empty_bundle_descendants
        [OF well_formed_bundle_cleared [OF h'(2) wf] cell' h'(3) c, of k] cc
      by simp
    with cc show ?thesis
      by (rule HasEvents_composite_all_empty)
  qed
  with h'(1) same
  show "\<exists>h'. Clear_composite n b h = Ok () h'
       \<and> bundle_descendants n h' b = bundle_descendants n h b
       \<and> (\<forall>c \<in> set (bundle_descendants n h b). HasEvents_composite n c h' = Ok False h')"
    by blast
qed

theorem Clear_then_no_events_witness:
  "populated (Suc (Suc 0)) example_kheap 2
   \<and> well_formed_bundle (Suc (Suc 0)) example_heap 2
   \<and> (\<exists>kh'. Clear (Suc (Suc 0)) 2 example_kheap = Ok () kh'
        \<and> HasEvents (Suc (Suc 0)) 2 kh' = Ok False kh'
        \<and> HasEvents (Suc (Suc 0)) 0 kh' = Ok False kh'
        \<and> HasEvents (Suc (Suc 0)) 1 kh' = Ok False kh')
   \<and> (\<exists>h'. Clear_composite (Suc (Suc 0)) 2 example_heap = Ok () h'
        \<and> HasEvents_composite (Suc (Suc 0)) 2 h' = Ok False h'
        \<and> HasEvents_composite (Suc (Suc 0)) 0 h' = Ok False h'
        \<and> HasEvents_composite (Suc (Suc 0)) 1 h' = Ok False h')"
proof -
  have p: "populated (Suc (Suc 0)) example_kheap 2"
    by (simp add: example_heap_simps)
  have w: "well_formed_bundle (Suc (Suc 0)) example_heap 2"
    by (simp add: example_heap_simps aliased_def child_events_def is_leaf_def)
  have d: "descendants (Suc (Suc 0)) example_kheap 2 = [2, 0, 1]"
    by (simp add: example_heap_simps)
  have b: "bundle_descendants (Suc (Suc 0)) example_heap 2 = [2, 0, 1]"
    by (simp add: example_heap_simps)
  note T = Clear_then_no_events [where n = "Suc (Suc 0)" and kh = example_kheap and a = 2
      and h = example_heap and b = 2]
  from T [THEN conjunct1, rule_format, OF p] obtain kh' where
    k: "Clear (Suc (Suc 0)) 2 example_kheap = Ok () kh'"
      "\<forall>c \<in> set (descendants (Suc (Suc 0)) example_kheap 2).
         HasEvents (Suc (Suc 0)) c kh' = Ok False kh'"
    by blast
  from k(2) [unfolded d] have 1: "HasEvents (Suc (Suc 0)) 2 kh' = Ok False kh'
      \<and> HasEvents (Suc (Suc 0)) 0 kh' = Ok False kh'
      \<and> HasEvents (Suc (Suc 0)) 1 kh' = Ok False kh'"
    by (simp del: HasEvents.simps)
  from T [THEN conjunct2, rule_format, OF w] obtain h' where
    c: "Clear_composite (Suc (Suc 0)) 2 example_heap = Ok () h'"
      "\<forall>c \<in> set (bundle_descendants (Suc (Suc 0)) example_heap 2).
         HasEvents_composite (Suc (Suc 0)) c h' = Ok False h'"
    by blast
  from c(2) [unfolded b] have 2: "HasEvents_composite (Suc (Suc 0)) 2 h' = Ok False h'
      \<and> HasEvents_composite (Suc (Suc 0)) 0 h' = Ok False h'
      \<and> HasEvents_composite (Suc (Suc 0)) 1 h' = Ok False h'"
    by simp
  from p w k(1) 1 c(1) 2 show ?thesis
    by blast
qed

section \<open>The diagram bundle and its children share storage\<close>

lemma set_subevent_collection_Ok:
  "set_subevent_collection a (int i) (Some x) kh = Ok () kh' \<longleftrightarrow>
     (\<exists>subs owned. lookup (coll_store kh) a = Some (DiagramEventCollection subs owned)
        \<and> i < length subs
        \<and> kh' = put_collection a (DiagramEventCollection (subs[i := Some x]) owned) kh)"
  by (auto simp: set_subevent_collection_def num_subsystems_def DRAKE_DEMAND_def
      split: option.splits EventCollection.splits)

lemma in_kind_Ok:
  "in_kind k f h = Ok x h' \<longleftrightarrow> (\<exists>kh. f (kind_heap k h) = Ok x kh \<and> h' = set_kind_heap k kh h)"
  by (auto simp: in_kind_def split: outcome.splits)

lemma set_subevents_Ok:
  assumes "set_subevents p d u i ss h = Ok () h'"
    and "lookup (coll_store (kind_heap k h)) (kind_events k (LeafCompositeEventCollection p d u))
       = Some (DiagramEventCollection subs owned)"
  shows "composite_store h' = composite_store h
     \<and> event_store (kind_heap k h') = event_store (kind_heap k h)
     \<and> length (coll_store (kind_heap k h')) = length (coll_store (kind_heap k h))
     \<and> (\<forall>x. x \<noteq> kind_events k (LeafCompositeEventCollection p d u) \<longrightarrow>
          lookup (coll_store (kind_heap k h')) x = lookup (coll_store (kind_heap k h)) x)
     \<and> (\<forall>s \<in> set ss. \<exists>c child. s = Some c \<and> lookup (composite_store h) c = Some child)
     \<and> (\<exists>subs'. lookup (coll_store (kind_heap k h'))
            (kind_events k (LeafCompositeEventCollection p d u))
              = Some (DiagramEventCollection subs' owned)
          \<and> length subs' = length subs
          \<and> (\<forall>j < i. subs' ! j = subs ! j)
          \<and> (\<forall>j < length ss. subs' ! (i + j) = child_events k h (ss ! j)))"
  using assms
proof (induction ss arbitrary: i h subs)
  case Nil
  then show ?case by simp
next
  case (Cons s ss)
  let ?r = "kind_events k (LeafCompositeEventCollection p d u)"
  from Cons.prems(1) obtain c child where s: "s = Some c"
    and child: "lookup (composite_store h) c = Some child"
    by (auto split: option.splits)
  from Cons.prems(1) s child obtain h1 h2 h3 where
    h1: "in_kind Publish (set_subevent_collection p (int i) (Some (publish_events child))) h
       = Ok () h1"
    and h2: "in_kind DiscreteUpdate
       (set_subevent_collection d (int i) (Some (discrete_update_events child))) h1 = Ok () h2"
    and h3: "in_kind UnrestrictedUpdate
       (set_subevent_collection u (int i) (Some (unrestricted_update_events child))) h2
         = Ok () h3"
    and rest: "set_subevents p d u (Suc i) ss h3 = Ok () h'"
    by (auto simp: and_then_Ok_iff)
  have step: "i < length subs
     \<and> kind_heap k h3 = put_collection ?r
          (DiagramEventCollection (subs[i := Some (kind_events k child)]) owned) (kind_heap k h)
     \<and> composite_store h3 = composite_store h"
    using h1 h2 h3 Cons.prems(2)
    by (cases k) (auto simp: in_kind_Ok set_subevent_collection_Ok)
  then have less: "i < length subs" and cs3: "composite_store h3 = composite_store h"
    and k3: "kind_heap k h3 = put_collection ?r
          (DiagramEventCollection (subs[i := Some (kind_events k child)]) owned) (kind_heap k h)"
    by simp_all
  from Cons.prems(2) have rless: "?r < length (coll_store (kind_heap k h))"
    by (rule lookup_Some_less)
  have root3: "lookup (coll_store (kind_heap k h3)) ?r
      = Some (DiagramEventCollection (subs[i := Some (kind_events k child)]) owned)"
    using k3 rless by (simp add: put_collection_def)
  from Cons.IH [OF rest root3] obtain subs' where
    ih: "composite_store h' = composite_store h3"
      "event_store (kind_heap k h') = event_store (kind_heap k h3)"
      "length (coll_store (kind_heap k h')) = length (coll_store (kind_heap k h3))"
      "\<forall>x. x \<noteq> ?r \<longrightarrow> lookup (coll_store (kind_heap k h')) x = lookup (coll_store (kind_heap k h3)) x"
      "\<forall>s \<in> set ss. \<exists>c child. s = Some c \<and> lookup (composite_store h3) c = Some child"
      "lookup (coll_store (kind_heap k h')) ?r = Some (DiagramEventCollection subs' owned)"
      "length subs' = length subs"
      "\<forall>j < Suc i. subs' ! j = (subs[i := Some (kind_events k child)]) ! j"
      "\<forall>j < length ss. subs' ! (Suc i + j) = child_events k h3 (ss ! j)"
    by auto
  have ce: "child_events k h3 = child_events k h"
    using cs3 by (auto simp: child_events_def fun_eq_iff split: option.splits)
  have "\<forall>j < length (s # ss). subs' ! (i + j) = child_events k h ((s # ss) ! j)"
  proof (intro allI impI)
    fix j assume j: "j < length (s # ss)"
    show "subs' ! (i + j) = child_events k h ((s # ss) ! j)"
    proof (cases j)
      case 0
      with ih(8) less s child show ?thesis
        by (simp add: child_events_def)
    next
      case (Suc j')
      with ih(9) j ce show ?thesis
        by simp
    qed
  qed
  moreover have "\<forall>j < i. subs' ! j = subs ! j"
    using ih(8) by auto
  ultimately show ?case
    using ih(1-7) cs3 k3 s child
    by (auto simp: put_collection_def)
qed

lemma DiagramEventCollection_ctor_Ok:
  "DiagramEventCollection_ctor N kh = Ok r kh' \<longleftrightarrow>
     0 \<le> N \<and> r = length (coll_store kh)
     \<and> kh' = kh\<lparr>coll_store := coll_store kh
          @ [Some (DiagramEventCollection (replicate (nat N) None) (replicate (nat N) None))]\<rparr>"
  by (auto simp: DiagramEventCollection_ctor_def new_collection_def)

lemma child_events_new_composite:
  "lookup (composite_store h) c = Some child \<Longrightarrow>
     child_events k (h\<lparr>composite_store := composite_store h @ [x]\<rparr>) (Some c)
       = child_events k h (Some c)"
  by (simp add: child_events_def lookup_Some_less)


text \<open>
  C2. In every diagram bundle the constructor builds from \<open>N\<close> child bundles, for
  every kind \<open>k\<close> and every \<open>i < N\<close>, slot \<open>i\<close> of the bundle's diagram collection of
  kind \<open>k\<close> holds the address of child bundle \<open>i\<close>'s collection of kind \<open>k\<close>: the two
  are one object, so what is added through one is read through the other. The
  constructor allocates no event, leaves the event stores and the child bundles as they
  were, and the new diagram collections own nothing.
\<close>

theorem diagram_bundle_aliases_children:
  assumes "DiagramCompositeEventCollection_ctor subevents h = Ok a h'"
  shows "\<exists>p d u. lookup (composite_store h') a
         = Some (DiagramCompositeEventCollection p d u subevents)
     \<and> (\<forall>k. lookup (coll_store (kind_heap k h'))
              (kind_events k (DiagramCompositeEventCollection p d u subevents))
            = Some (DiagramEventCollection (map (child_events k h') subevents)
                 (replicate (length subevents) None))
          \<and> event_store (kind_heap k h') = event_store (kind_heap k h))
     \<and> (\<forall>i < length subevents. \<exists>c child. subevents ! i = Some c
          \<and> get_mutable_subevent_collection a (int i) h' = Ok c h'
          \<and> lookup (composite_store h') c = Some child
          \<and> lookup (composite_store h) c = Some child
          \<and> (\<forall>k. get_subevent_collection
                 (kind_events k (DiagramCompositeEventCollection p d u subevents)) (int i)
                 (kind_heap k h') = Ok (kind_events k child) (kind_heap k h')))"
proof -
  let ?N = "length subevents"
  let ?new = "Some (DiagramEventCollection (replicate ?N None) (replicate ?N None))"
  define p where "p = length (coll_store (publish_heap h))"
  define d where "d = length (coll_store (discrete_update_heap h))"
  define u where "u = length (coll_store (unrestricted_update_heap h))"
  define h3 where "h3 = h\<lparr>
    publish_heap := (publish_heap h)\<lparr>coll_store := coll_store (publish_heap h) @ [?new]\<rparr>,
    discrete_update_heap := (discrete_update_heap h)
      \<lparr>coll_store := coll_store (discrete_update_heap h) @ [?new]\<rparr>,
    unrestricted_update_heap := (unrestricted_update_heap h)
      \<lparr>coll_store := coll_store (unrestricted_update_heap h) @ [?new]\<rparr>\<rparr>"
  let ?cell = "DiagramCompositeEventCollection p d u subevents"
  let ?r = "\<lambda>k. kind_events k (LeafCompositeEventCollection p d u)"
  have r_eq: "kind_events k ?cell = ?r k" for k
    by (cases k) simp_all
  from assms obtain h4 where
    loop: "set_subevents p d u 0 subevents h3 = Ok () h4"
    and new: "new_composite ?cell h4 = Ok a h'"
    unfolding DiagramCompositeEventCollection_ctor_def p_def d_def u_def h3_def
    by (auto simp: and_then_Ok_iff in_kind_Ok DiagramEventCollection_ctor_Ok
        split: if_splits)
  have root3: "lookup (coll_store (kind_heap k h3)) (?r k)
      = Some (DiagramEventCollection (replicate ?N None) (replicate ?N None))" for k
    by (cases k) (simp_all add: h3_def p_def d_def u_def)
  have ev3: "event_store (kind_heap k h3) = event_store (kind_heap k h)" for k
    by (cases k) (simp_all add: h3_def)
  have cs3: "composite_store h3 = composite_store h"
    by (simp add: h3_def)
  from new have a: "a = length (composite_store h4)"
    and h': "h' = h4\<lparr>composite_store := composite_store h4 @ [Some ?cell]\<rparr>"
    by (simp_all add: new_composite_def)
  have kh': "kind_heap k h' = kind_heap k h4" for k
    by (cases k) (simp_all add: h')
  have cell: "lookup (composite_store h') a = Some ?cell"
    by (simp add: a h')
  note inv = set_subevents_Ok [OF loop root3]
  have children: "\<forall>s \<in> set subevents. \<exists>c child. s = Some c
      \<and> lookup (composite_store h3) c = Some child"
    using inv [of Publish] by blast
  have cs4: "composite_store h4 = composite_store h3"
    using inv [of Publish] by blast
  have ce: "child_events k h' s = child_events k h3 s" if "s \<in> set subevents" for k s
  proof -
    from children that obtain c child where "s = Some c"
      "lookup (composite_store h4) c = Some child"
      by (auto simp: cs4)
    then show ?thesis
      using child_events_new_composite [of h4 c child k "Some ?cell"] cs4
      by (simp add: h' child_events_def)
  qed
  have slots: "lookup (coll_store (kind_heap k h')) (kind_events k ?cell)
      = Some (DiagramEventCollection (map (child_events k h') subevents) (replicate ?N None))
      \<and> event_store (kind_heap k h') = event_store (kind_heap k h)" for k
  proof -
    from inv [of k] obtain subs' where
      s1: "lookup (coll_store (kind_heap k h4)) (?r k)
          = Some (DiagramEventCollection subs' (replicate ?N None))"
      and s2: "length subs' = ?N"
      and s3: "\<forall>j < ?N. subs' ! j = child_events k h3 (subevents ! j)"
      and s4: "event_store (kind_heap k h4) = event_store (kind_heap k h3)"
      by auto
    have "subs' = map (child_events k h') subevents"
      using s2 s3 ce by (intro nth_equalityI) simp_all
    with s1 s4 ev3 show ?thesis
      by (simp add: kh' r_eq)
  qed
  have access: "\<exists>c child. subevents ! i = Some c
      \<and> get_mutable_subevent_collection a (int i) h' = Ok c h'
      \<and> lookup (composite_store h') c = Some child
      \<and> lookup (composite_store h) c = Some child
      \<and> (\<forall>k. get_subevent_collection (kind_events k ?cell) (int i) (kind_heap k h')
             = Ok (kind_events k child) (kind_heap k h'))" if i: "i < ?N" for i
  proof -
    from i have "subevents ! i \<in> set subevents"
      by (rule nth_mem)
    with children obtain c child where c: "subevents ! i = Some c"
      and child: "lookup (composite_store h4) c = Some child"
      unfolding cs4 by blast
    from child have child': "lookup (composite_store h') c = Some child"
      by (simp add: h' lookup_Some_less)
    have "child_events k h' (subevents ! i) = Some (kind_events k child)" for k
      using c child' by (simp add: child_events_def)
    then have "get_subevent_collection (kind_events k ?cell) (int i) (kind_heap k h')
        = Ok (kind_events k child) (kind_heap k h')" for k
      using slots [of k] i
      by (simp add: get_subevent_collection_def num_subsystems_def)
    moreover have "get_mutable_subevent_collection a (int i) h' = Ok c h'"
      using cell c i by (simp add: get_mutable_subevent_collection_def)
    ultimately show ?thesis
      using c child' child cs4 cs3 by auto
  qed
  from cell slots access show ?thesis
    by blast
qed

theorem diagram_bundle_aliases_children_witness:
  "\<exists>a h' p d u. DiagramCompositeEventCollection_ctor [Some 0, Some 1] example_heap = Ok a h'
     \<and> lookup (composite_store h') a
         = Some (DiagramCompositeEventCollection p d u [Some 0, Some 1])
     \<and> get_mutable_subevent_collection a 1 h' = Ok 1 h'
     \<and> lookup (composite_store h') 1 = Some (LeafCompositeEventCollection 1 1 1)
     \<and> get_subevent_collection p 1 (publish_heap h') = Ok 1 (publish_heap h')
     \<and> get_subevent_collection d 1 (discrete_update_heap h') = Ok 1 (discrete_update_heap h')
     \<and> get_subevent_collection u 1 (unrestricted_update_heap h')
         = Ok 1 (unrestricted_update_heap h')"
proof -
  have "\<exists>a h'. DiagramCompositeEventCollection_ctor [Some 0, Some 1] example_heap = Ok a h'"
    by (simp add: DiagramCompositeEventCollection_ctor_def DiagramEventCollection_ctor_def
        new_collection_def set_subevent_collection_def num_subsystems_def new_composite_def
        example_heap_simps)
  then obtain a h' where
    ok: "DiagramCompositeEventCollection_ctor [Some 0, Some 1] example_heap = Ok a h'"
    by blast
  from diagram_bundle_aliases_children [OF ok] obtain p d u where
    cell: "lookup (composite_store h') a
         = Some (DiagramCompositeEventCollection p d u [Some 0, Some 1])"
    and acc: "\<forall>i < length [Some (0::addr), Some 1]. \<exists>c child. [Some 0, Some 1] ! i = Some c
          \<and> get_mutable_subevent_collection a (int i) h' = Ok c h'
          \<and> lookup (composite_store h') c = Some child
          \<and> lookup (composite_store example_heap) c = Some child
          \<and> (\<forall>k. get_subevent_collection
                 (kind_events k (DiagramCompositeEventCollection p d u [Some 0, Some 1])) (int i)
                 (kind_heap k h') = Ok (kind_events k child) (kind_heap k h'))"
    by blast
  from acc [rule_format, of 1] obtain child where
    c: "get_mutable_subevent_collection a 1 h' = Ok 1 h'"
      "lookup (composite_store h') 1 = Some child"
      "lookup (composite_store example_heap) 1 = Some child"
      "\<forall>k. get_subevent_collection
                 (kind_events k (DiagramCompositeEventCollection p d u [Some 0, Some 1])) 1
                 (kind_heap k h') = Ok (kind_events k child) (kind_heap k h')"
    by auto
  from c(3) have child: "child = LeafCompositeEventCollection 1 1 1"
    by (simp add: example_heap_simps)
  from c(4) [rule_format, of Publish] c(4) [rule_format, of DiscreteUpdate]
    c(4) [rule_format, of UnrestrictedUpdate] c(1,2) cell ok child
  show ?thesis
    by auto
qed

section \<open>Merging leaf collections\<close>

lemma lookup_append_live: "lookup xs e \<noteq> None \<Longrightarrow> lookup (xs @ ys) e = lookup xs e"
  by (auto simp: lookup_def nth_append split: if_splits)

lemma upt_first: "[n ..< Suc (n + k)] = n # [Suc n ..< Suc (n + k)]"
  by (rule upt_conv_Cons) simp

lemma clone_each_Ok:
  assumes "lookup (coll_store h) a = Some (LeafEventCollection ow evs)"
    and "\<forall>e \<in> set other_events. lookup (event_store h) e \<noteq> None"
  shows "clone_each a other_events h = Ok () (cloned_heap a ow evs other_events h)"
  using assms
proof (induction other_events arbitrary: h ow evs)
  case Nil
  then have "a < length (coll_store h)" "coll_store h ! a = Some (LeafEventCollection ow evs)"
    by (auto simp: lookup_def split: if_splits)
  then show ?case
    by (simp add: cloned_heap_def list_update_same_conv [THEN iffD2])
next
  case (Cons e es)
  from Cons.prems(2) obtain v where v: "lookup (event_store h) e = Some v"
    by auto
  from Cons.prems(1) have less: "a < length (coll_store h)"
    by (rule lookup_Some_less)
  let ?n = "length (event_store h)"
  let ?h1 = "h\<lparr>event_store := event_store h @ [Some (Clone v)]\<rparr>"
  let ?h2 = "put_collection a (LeafEventCollection (ow @ [?n]) (evs @ [?n])) ?h1"
  have add: "add_event a (Some ?n) ?h1 = Ok () ?h2"
    using Cons.prems(1) by (simp add: add_event_def)
  have cell2: "lookup (coll_store ?h2) a = Some (LeafEventCollection (ow @ [?n]) (evs @ [?n]))"
    using less by (simp add: put_collection_def)
  have live2: "\<forall>x \<in> set es. lookup (event_store ?h2) x \<noteq> None"
    using Cons.prems(2) by (simp add: put_collection_def lookup_append_live)
  have same: "map (\<lambda>x. map_option Clone (lookup (event_store ?h2) x)) es
      = map (\<lambda>x. map_option Clone (lookup (event_store h) x)) es"
    using Cons.prems(2) by (simp add: put_collection_def lookup_append_live)
  have "clone_each a (e # es) h = clone_each a es ?h2"
    using v add by (simp add: new_event_def)
  also have "\<dots> = Ok () (cloned_heap a (ow @ [?n]) (evs @ [?n]) es ?h2)"
    by (rule Cons.IH [OF cell2 live2])
  also have "cloned_heap a (ow @ [?n]) (evs @ [?n]) es ?h2 = cloned_heap a ow evs (e # es) h"
    unfolding cloned_heap_def same
    using v by (simp add: put_collection_def upt_first del: upt_Suc)
  finally show ?case .
qed

lemma AddToEnd_leaf_Ok:
  assumes "lookup (coll_store h) a = Some (LeafEventCollection ow evs)"
    and "lookup (coll_store h) b = Some (LeafEventCollection oow other_events)"
    and "a \<noteq> b"
    and "\<forall>e \<in> set other_events. lookup (event_store h) e \<noteq> None"
  shows "AddToEnd (Suc n) a b h = Ok () (cloned_heap a ow evs other_events h)"
  using assms clone_each_Ok [OF assms(1,4)] by simp

lemma leaf_invariant_lookup:
  "leaf_invariant h \<Longrightarrow> lookup (coll_store h) a = Some (LeafEventCollection ow evs) \<Longrightarrow>
     evs = ow \<and> (\<forall>e \<in> set ow. lookup (event_store h) e \<noteq> None)"
  by (auto simp: leaf_invariant_def list_all_iff lookup_def split: if_splits dest!: nth_mem)

lemma owned_allocated:
  assumes "leaf_invariant h" and "e \<in> set (concat (map owned_by (coll_store h)))"
  shows "e < length (event_store h)"
proof -
  from assms(2) obtain cell where "cell \<in> set (coll_store h)" "e \<in> set (owned_by cell)"
    by auto
  with assms(1) have "lookup (event_store h) e \<noteq> None"
    by (auto simp: leaf_invariant_def list_all_iff owned_by_def
        split: option.splits EventCollection.splits)
  then show ?thesis
    by (auto simp: lookup_def split: if_splits)
qed

lemma concat_owned_update:
  assumes "lookup cs a = Some (LeafEventCollection ow evs)"
  shows "concat (map owned_by cs)
       = concat (map owned_by (take a cs)) @ ow @ concat (map owned_by (drop (Suc a) cs))"
    and "concat (map owned_by (cs[a := Some (LeafEventCollection ow' evs')]))
       = concat (map owned_by (take a cs)) @ ow' @ concat (map owned_by (drop (Suc a) cs))"
proof -
  from assms have less: "a < length cs" and nth: "cs ! a = Some (LeafEventCollection ow evs)"
    by (auto simp: lookup_def split: if_splits)
  from less have "cs = take a cs @ cs ! a # drop (Suc a) cs"
    by (rule id_take_nth_drop)
  then have "concat (map owned_by cs)
      = concat (map owned_by (take a cs @ cs ! a # drop (Suc a) cs))"
    by simp
  with nth show "concat (map owned_by cs)
       = concat (map owned_by (take a cs)) @ ow @ concat (map owned_by (drop (Suc a) cs))"
    by (simp add: owned_by_def)
  from less show "concat (map owned_by (cs[a := Some (LeafEventCollection ow' evs')]))
       = concat (map owned_by (take a cs)) @ ow' @ concat (map owned_by (drop (Suc a) cs))"
    by (simp add: upd_conv_take_nth_drop owned_by_def)
qed


text \<open>
  C8. Merging a leaf collection into another one allocates one new event per event of
  the other, each with the value \<open>Clone\<close> gives, and appends the new events, none of
  them an event of the other. The other collection and its events are as they were.
  When no event was owned twice before the merge, none is afterwards.
\<close>

theorem leaf_merge_clones:
  assumes a: "lookup (coll_store h) a = Some (LeafEventCollection ow evs)"
    and b: "lookup (coll_store h) b = Some (LeafEventCollection oow other_events)"
    and ab: "a \<noteq> b"
    and inv: "leaf_invariant h"
    and own: "single_owner h"
  shows "\<exists>h'. AddToEnd (Suc n) a b h = Ok () h'
     \<and> lookup (coll_store h') b = Some (LeafEventCollection oow other_events)
     \<and> map (lookup (event_store h')) other_events = map (lookup (event_store h)) other_events
     \<and> lookup (coll_store h') a = Some (LeafEventCollection
          (ow @ fresh_events h (length other_events))
          (evs @ fresh_events h (length other_events)))
     \<and> set (fresh_events h (length other_events)) \<inter> set other_events = {}
     \<and> (\<forall>e \<in> set (fresh_events h (length other_events)). lookup (event_store h) e = None)
     \<and> map (lookup (event_store h')) (fresh_events h (length other_events))
         = map (\<lambda>e. map_option Clone (lookup (event_store h) e)) other_events
     \<and> leaf_invariant h'
     \<and> single_owner h'"
proof -
  let ?es = "event_store h"
  let ?new = "[length ?es ..< length ?es + length other_events]"
  let ?h' = "cloned_heap a ow evs other_events h"
  let ?clones = "map (\<lambda>e. map_option Clone (lookup ?es e)) other_events"
  from leaf_invariant_lookup [OF inv b] have live: "\<forall>e \<in> set other_events. lookup ?es e \<noteq> None"
    and oev: "other_events = oow"
    by simp_all
  from leaf_invariant_lookup [OF inv a] have evs: "evs = ow"
    and live_a: "\<forall>e \<in> set ow. lookup ?es e \<noteq> None"
    by simp_all
  have es': "event_store ?h' = ?es @ ?clones"
    and cs': "coll_store ?h' = (coll_store h)[a := Some (LeafEventCollection (ow @ ?new) (evs @ ?new))]"
    by (simp_all add: cloned_heap_def)
  from a have less: "a < length (coll_store h)"
    by (rule lookup_Some_less)
  have 1: "AddToEnd (Suc n) a b h = Ok () ?h'"
    by (rule AddToEnd_leaf_Ok [OF a b ab live])
  have 2: "lookup (coll_store ?h') b = Some (LeafEventCollection oow other_events)"
    using b ab by (simp add: cs')
  have old: "lookup (event_store ?h') e = lookup ?es e" if "lookup ?es e \<noteq> None" for e
    using that by (simp add: es' lookup_append_live)
  have 3: "map (lookup (event_store ?h')) other_events = map (lookup ?es) other_events"
    using live old by simp
  have 4: "lookup (coll_store ?h') a = Some (LeafEventCollection (ow @ ?new) (evs @ ?new))"
    using less by (simp add: cs')
  have 5: "length ?new = length other_events" "distinct ?new"
    by simp_all
  have fresh: "\<forall>e \<in> set ?new. lookup ?es e = None"
    by (simp add: lookup_def)
  with live have 6: "set ?new \<inter> set other_events = {}"
    by auto
  have 7: "map (lookup (event_store ?h')) ?new = ?clones"
    by (rule nth_equalityI) (simp_all add: es' lookup_def nth_append)
  have live_new: "\<forall>e \<in> set ?new. lookup (event_store ?h') e \<noteq> None"
  proof
    fix e assume e: "e \<in> set ?new"
    then have "e - length ?es < length other_events" "e = length ?es + (e - length ?es)"
      by auto
    then obtain i where i: "i < length other_events" "e = length ?es + i"
      by blast
    then have "lookup (event_store ?h') e = ?clones ! i"
      by (simp add: es' lookup_def nth_append)
    with i live show "lookup (event_store ?h') e \<noteq> None"
      by simp
  qed
  have 8: "leaf_invariant ?h'"
    unfolding leaf_invariant_def list_all_iff
  proof
    fix cell assume "cell \<in> set (coll_store ?h')"
    then have "cell = Some (LeafEventCollection (ow @ ?new) (evs @ ?new))
        \<or> cell \<in> set (coll_store h)"
      unfolding cs' by (auto dest: set_update_subset_insert [THEN subsetD])
    then show "case cell of
        Some (LeafEventCollection ow evs) \<Rightarrow>
          evs = ow \<and> (\<forall>e \<in> set ow. lookup (event_store ?h') e \<noteq> None)
      | _ \<Rightarrow> True"
    proof
      assume "cell = Some (LeafEventCollection (ow @ ?new) (evs @ ?new))"
      with evs live_a live_new old show ?thesis
        by auto
    next
      assume "cell \<in> set (coll_store h)"
      with inv old show ?thesis
        by (auto simp: leaf_invariant_def list_all_iff
            split: option.splits EventCollection.splits)
    qed
  qed
  have 9: "single_owner ?h'"
  proof -
    let ?A = "concat (map owned_by (take a (coll_store h)))"
    let ?B = "concat (map owned_by (drop (Suc a) (coll_store h)))"
    note split = concat_owned_update [OF a]
    from own have d: "distinct (?A @ ow @ ?B)"
      by (simp add: single_owner_def split(1))
    have "e < length ?es" if "e \<in> set (?A @ ow @ ?B)" for e
      using that owned_allocated [OF inv, of e] by (simp add: split(1))
    then have "set ?new \<inter> set (?A @ ow @ ?B) = {}"
      by fastforce
    with d have "distinct (?A @ (ow @ ?new) @ ?B)"
      by auto
    then show ?thesis
      by (simp add: single_owner_def cs' split(2))
  qed
  from 1 2 3 4 6 fresh 7 8 9 show ?thesis
    unfolding fresh_events_def by blast
qed

theorem leaf_merge_clones_witness:
  "leaf_invariant example_kheap \<and> single_owner example_kheap
   \<and> (\<exists>h'. AddToEnd (Suc 0) 1 0 example_kheap = Ok () h'
      \<and> lookup (coll_store h') 0 = Some (LeafEventCollection [0, 1] [0, 1])
      \<and> lookup (coll_store h') 1 = Some (LeafEventCollection [2, 3, 4] [2, 3, 4])
      \<and> map (lookup (event_store h')) [3, 4]
          = [Some \<lparr>trigger_type = kPeriodic, event_data = Some 1, callback = Some 1\<rparr>,
             Some \<lparr>trigger_type = kPerStep, event_data = Some 2, callback = Some 2\<rparr>]
      \<and> leaf_invariant h' \<and> single_owner h')"
proof -
  have a: "lookup (coll_store example_kheap) 1 = Some (LeafEventCollection [2] [2])"
    and b: "lookup (coll_store example_kheap) 0 = Some (LeafEventCollection [0, 1] [0, 1])"
    by (simp_all add: example_heap_simps)
  have inv: "leaf_invariant example_kheap"
    by (simp add: leaf_invariant_def example_heap_simps)
  have own: "single_owner example_kheap"
    by (simp add: single_owner_def owned_by_def example_heap_simps)
  have new: "fresh_events example_kheap (length [0::addr, 1]) = [3, 4]"
    by (simp add: fresh_events_def example_kheap_def upt_rec)
  have ev: "map (\<lambda>e. map_option Clone (lookup (event_store example_kheap) e)) [0, 1]
      = [Some \<lparr>trigger_type = kPeriodic, event_data = Some 1, callback = Some 1\<rparr>,
         Some \<lparr>trigger_type = kPerStep, event_data = Some 2, callback = Some 2\<rparr>]"
    by (simp add: example_heap_simps Clone_def)
  have "(1::addr) \<noteq> 0"
    by simp
  from leaf_merge_clones [OF a b this inv own, of 0, unfolded new ev] inv own
  show ?thesis
    by (auto simp del: AddToEnd.simps)
qed

section \<open>Merging preserves order\<close>

lemma grows_refl: "grows h h"
  by (auto simp: grows_def split: option.splits EventCollection.splits)

lemma grows_trans: "grows h1 h2 \<Longrightarrow> grows h2 h3 \<Longrightarrow> grows h1 h3"
  unfolding grows_def
  apply (intro conjI allI)
   apply (metis append.assoc)
  subgoal for x
    apply (erule conjE)+
    apply (erule_tac x=x in allE)+
    apply (auto split: option.splits EventCollection.splits)
    done
  done

lemma grows_None: "grows h h' \<Longrightarrow> lookup (coll_store h) x = None \<Longrightarrow> lookup (coll_store h') x = None"
  unfolding grows_def by (auto split: option.splits dest: spec [of _ x])

lemma grows_Leaf:
  "grows h h' \<Longrightarrow> lookup (coll_store h) x = Some (LeafEventCollection ow evs) \<Longrightarrow>
     \<exists>ow' evs'. lookup (coll_store h') x = Some (LeafEventCollection ow' evs')"
  unfolding grows_def by (auto split: option.splits dest: spec [of _ x])

lemma grows_Diagram:
  "grows h h' \<Longrightarrow> lookup (coll_store h) x = Some (DiagramEventCollection subs owned) \<Longrightarrow>
     lookup (coll_store h') x = Some (DiagramEventCollection subs owned)"
  unfolding grows_def by (auto split: option.splits dest: spec [of _ x])

lemma grows_live:
  "grows h h' \<Longrightarrow> lookup (event_store h) e \<noteq> None \<Longrightarrow>
     lookup (event_store h') e = lookup (event_store h) e"
  unfolding grows_def by (auto simp: lookup_append_live)

lemma leaves_grows: "grows h h' \<Longrightarrow> leaves n h' a = leaves n h a"
proof (induction n arbitrary: a)
  case 0
  then show ?case by simp
next
  case (Suc n)
  have ih: "leaves n h' = leaves n h"
    by (rule ext) (rule Suc.IH [OF Suc.prems])
  show ?case
  proof (cases "lookup (coll_store h) a")
    case None
    with grows_None [OF Suc.prems] show ?thesis by simp
  next
    case (Some cell)
    show ?thesis
    proof (cases cell)
      case (LeafEventCollection ow evs)
      with Some grows_Leaf [OF Suc.prems, of a ow evs] show ?thesis
        by auto
    next
      case (DiagramEventCollection subs owned)
      with Some grows_Diagram [OF Suc.prems, of a subs owned] ih show ?thesis
        by simp
    qed
  qed
qed

lemma both_mono: "both P p \<Longrightarrow> (\<And>c d. P c d \<Longrightarrow> Q c d) \<Longrightarrow> both Q p"
  by (cases "(P, p)" rule: both.cases) auto

lemma both_Some: "both P p \<longleftrightarrow> (\<exists>c d. p = (Some c, Some d) \<and> P c d)"
  by (cases "(P, p)" rule: both.cases) auto

lemma is_leaf_grows: "grows h h' \<Longrightarrow> is_leaf h a \<Longrightarrow> is_leaf h' a"
  using grows_Leaf [of h h' a]
  by (auto simp: is_leaf_def split: option.splits EventCollection.splits)

lemma same_shape_grows: "grows h h' \<Longrightarrow> same_shape n h a b \<Longrightarrow> same_shape n h' a b"
proof (induction n arbitrary: a b)
  case 0
  then show ?case by simp
next
  case (Suc n)
  show ?case
  proof (cases "lookup (coll_store h) a")
    case None
    with Suc.prems show ?thesis by simp
  next
    case (Some cell)
    show ?thesis
    proof (cases cell)
      case (LeafEventCollection ow evs)
      with Some Suc.prems grows_Leaf [OF Suc.prems(1), of a ow evs] show ?thesis
        by (auto intro: is_leaf_grows)
    next
      case (DiagramEventCollection subs owned)
      with Some Suc.prems(2) obtain osubs oowned where
        b: "lookup (coll_store h) b = Some (DiagramEventCollection osubs oowned)"
        and len: "length subs = length osubs"
        and all: "list_all (both (same_shape n h)) (zip subs osubs)"
        by (auto split: option.splits EventCollection.splits)
      from all have "list_all (both (same_shape n h')) (zip subs osubs)"
        by (rule list.pred_mono_strong) (erule both_mono, rule Suc.IH [OF Suc.prems(1)])
      with Some DiagramEventCollection b len grows_Diagram [OF Suc.prems(1)] show ?thesis
        by simp
    qed
  qed
qed

lemma contents_frame:
  "grows h h' \<Longrightarrow>
   \<forall>l \<in> set (leaves n h x). lookup (coll_store h') l = lookup (coll_store h) l \<Longrightarrow>
   \<forall>l \<in> set (leaves n h x). events_live h l \<Longrightarrow>
   contents n h' x = contents n h x"
proof (induction n arbitrary: x)
  case 0
  then show ?case by simp
next
  case (Suc n)
  show ?case
  proof (cases "lookup (coll_store h) x")
    case None
    with grows_None [OF Suc.prems(1)] show ?thesis by simp
  next
    case (Some cell)
    show ?thesis
    proof (cases cell)
      case (LeafEventCollection ow evs)
      with Some Suc.prems(2) have same: "lookup (coll_store h') x = Some (LeafEventCollection ow evs)"
        by simp
      from Some LeafEventCollection Suc.prems(3)
      have "\<forall>e \<in> set evs. lookup (event_store h) e \<noteq> None"
        by (simp add: events_live_def list_all_iff)
      then have "map (lookup (event_store h')) evs = map (lookup (event_store h)) evs"
        using grows_live [OF Suc.prems(1)] by simp
      with Some LeafEventCollection same show ?thesis
        by simp
    next
      case (DiagramEventCollection subs owned)
      have "contents n h' c = contents n h c" if "Some c \<in> set subs" for c
      proof (rule Suc.IH [OF Suc.prems(1)])
        from that Some DiagramEventCollection
        have sub: "set (leaves n h c) \<subseteq> set (leaves (Suc n) h x)"
          by (auto intro!: bexI [of _ "Some c"])
        with Suc.prems(2)
        show "\<forall>l \<in> set (leaves n h c). lookup (coll_store h') l = lookup (coll_store h) l"
          by blast
        from sub Suc.prems(3) show "\<forall>l \<in> set (leaves n h c). events_live h l"
          by blast
      qed
      then have "map (\<lambda>s. case s of None \<Rightarrow> Invalid | Some c \<Rightarrow> contents n h' c) subs
          = map (\<lambda>s. case s of None \<Rightarrow> Invalid | Some c \<Rightarrow> contents n h c) subs"
        by (auto split: option.splits)
      with Some DiagramEventCollection grows_Diagram [OF Suc.prems(1), of x subs owned]
      show ?thesis
        by simp
    qed
  qed
qed

lemma events_live_frame:
  "grows h h' \<Longrightarrow> lookup (coll_store h') l = lookup (coll_store h) l \<Longrightarrow>
     events_live h l \<Longrightarrow> events_live h' l"
  using grows_live [of h h']
  by (auto simp: events_live_def list_all_iff split: option.splits EventCollection.splits)

lemma slot_contents_frame:
  "grows h h' \<Longrightarrow>
   \<forall>l \<in> set (case_option [] (leaves n h) s). lookup (coll_store h') l = lookup (coll_store h) l \<Longrightarrow>
   \<forall>l \<in> set (case_option [] (leaves n h) s). events_live h l \<Longrightarrow>
   case_option Invalid (contents n h') s = case_option Invalid (contents n h) s"
proof (cases s)
  case None
  then show ?thesis by simp
next
  case (Some c)
  assume "grows h h'"
    and "\<forall>l \<in> set (case_option [] (leaves n h) s).
      lookup (coll_store h') l = lookup (coll_store h) l"
    and "\<forall>l \<in> set (case_option [] (leaves n h) s). events_live h l"
  with Some have "contents n h' c = contents n h c"
    by (auto intro: contents_frame)
  with Some show ?thesis by simp
qed

lemma leaves_grows_fun: "grows h h' \<Longrightarrow> leaves n h' = leaves n h"
  by (rule ext) (rule leaves_grows)

lemma for_each_pair_merge:
  assumes step: "\<And>a b h. same_shape n h a b \<Longrightarrow> distinct (leaves n h a) \<Longrightarrow>
      set (leaves n h a) \<inter> set (leaves n h b) = {} \<Longrightarrow>
      \<forall>l \<in> set (leaves n h a) \<union> set (leaves n h b). events_live h l \<Longrightarrow>
      \<exists>h'. f a b h = Ok () h' \<and> grows h h'
        \<and> (\<forall>x. x \<notin> set (leaves n h a) \<longrightarrow> lookup (coll_store h') x = lookup (coll_store h) x)
        \<and> (\<forall>l \<in> set (leaves n h a). events_live h' l)
        \<and> contents n h' a = append_contents (contents n h a) (contents n h b)"
  shows "list_all (both (same_shape n h)) ps \<Longrightarrow>
     distinct (concat (map (case_option [] (leaves n h)) (map fst ps))) \<Longrightarrow>
     set (concat (map (case_option [] (leaves n h)) (map fst ps)))
       \<inter> set (concat (map (case_option [] (leaves n h)) (map snd ps))) = {} \<Longrightarrow>
     \<forall>l \<in> set (concat (map (case_option [] (leaves n h)) (map fst ps)))
       \<union> set (concat (map (case_option [] (leaves n h)) (map snd ps))). events_live h l \<Longrightarrow>
     \<exists>h'. for_each_pair f ps h = Ok () h' \<and> grows h h'
       \<and> (\<forall>x. x \<notin> set (concat (map (case_option [] (leaves n h)) (map fst ps))) \<longrightarrow>
            lookup (coll_store h') x = lookup (coll_store h) x)
       \<and> (\<forall>l \<in> set (concat (map (case_option [] (leaves n h)) (map fst ps))). events_live h' l)
       \<and> map (\<lambda>p. case_option Invalid (contents n h') (fst p)) ps
           = map (\<lambda>p. append_contents (case_option Invalid (contents n h) (fst p))
                  (case_option Invalid (contents n h) (snd p))) ps"
proof (induction ps arbitrary: h)
  case Nil
  then show ?case by (simp add: grows_refl)
next
  case (Cons p ps)
  let ?L = "\<lambda>h. case_option [] (leaves n h)"
  let ?C = "\<lambda>h. case_option Invalid (contents n h)"
  define LL where "LL = concat (map (?L h) (map fst ps))"
  define RR where "RR = concat (map (?L h) (map snd ps))"
  from Cons.prems(1) have "both (same_shape n h) p"
    and rest: "list_all (both (same_shape n h)) ps"
    by simp_all
  then obtain c d where p: "p = (Some c, Some d)" and cd: "same_shape n h c d"
    unfolding both_Some by blast
  define Lc where "Lc = leaves n h c"
  define Ld where "Ld = leaves n h d"
  from Cons.prems(2) p have dc: "distinct Lc" and dl: "distinct LL"
    and cl: "set Lc \<inter> set LL = {}"
    by (simp_all add: LL_def Lc_def)
  from Cons.prems(3) p have lr: "(set Lc \<union> set LL) \<inter> (set Ld \<union> set RR) = {}"
    by (simp add: LL_def RR_def Lc_def Ld_def)
  from Cons.prems(4) p have live: "\<forall>l \<in> (set Lc \<union> set LL) \<union> (set Ld \<union> set RR). events_live h l"
    by (simp add: LL_def RR_def Lc_def Ld_def)
  have "\<exists>h'. f c d h = Ok () h' \<and> grows h h'
        \<and> (\<forall>x. x \<notin> set (leaves n h c) \<longrightarrow> lookup (coll_store h') x = lookup (coll_store h) x)
        \<and> (\<forall>l \<in> set (leaves n h c). events_live h' l)
        \<and> contents n h' c = append_contents (contents n h c) (contents n h d)"
  proof (rule step [OF cd])
    show "distinct (leaves n h c)"
      using dc by (simp add: Lc_def)
    show "set (leaves n h c) \<inter> set (leaves n h d) = {}"
      using lr unfolding Lc_def [symmetric] Ld_def [symmetric] by auto
    show "\<forall>l \<in> set (leaves n h c) \<union> set (leaves n h d). events_live h l"
      using live unfolding Lc_def [symmetric] Ld_def [symmetric] by auto
  qed
  then obtain h1 where h1: "f c d h = Ok () h1" and g1: "grows h h1"
    and fr1: "\<forall>x. x \<notin> set Lc \<longrightarrow> lookup (coll_store h1) x = lookup (coll_store h) x"
    and lv1: "\<forall>l \<in> set Lc. events_live h1 l"
    and ct1: "contents n h1 c = append_contents (contents n h c) (contents n h d)"
    unfolding Lc_def by blast
  note lf = leaves_grows_fun [OF g1, of n]
  have rest1: "list_all (both (same_shape n h1)) ps"
    using rest by (rule list.pred_mono_strong) (erule both_mono, rule same_shape_grows [OF g1])
  have live1: "\<forall>l \<in> set LL \<union> set RR. events_live h1 l"
  proof
    fix l assume l: "l \<in> set LL \<union> set RR"
    with cl lr have "l \<notin> set Lc"
      by auto
    with fr1 have "lookup (coll_store h1) l = lookup (coll_store h) l"
      by simp
    moreover from l live have "events_live h l"
      by auto
    ultimately show "events_live h1 l"
      using g1 by (auto elim: events_live_frame)
  qed
  have "\<exists>h'. for_each_pair f ps h1 = Ok () h' \<and> grows h1 h'
       \<and> (\<forall>x. x \<notin> set (concat (map (?L h1) (map fst ps))) \<longrightarrow>
            lookup (coll_store h') x = lookup (coll_store h1) x)
       \<and> (\<forall>l \<in> set (concat (map (?L h1) (map fst ps))). events_live h' l)
       \<and> map (\<lambda>p. ?C h' (fst p)) ps
           = map (\<lambda>p. append_contents (?C h1 (fst p)) (?C h1 (snd p))) ps"
  proof (rule Cons.IH [OF rest1])
    show "distinct (concat (map (?L h1) (map fst ps)))"
      using dl unfolding lf LL_def .
    show "set (concat (map (?L h1) (map fst ps))) \<inter> set (concat (map (?L h1) (map snd ps))) = {}"
      using lr unfolding lf LL_def [symmetric] RR_def [symmetric] by auto
    show "\<forall>l \<in> set (concat (map (?L h1) (map fst ps)))
        \<union> set (concat (map (?L h1) (map snd ps))). events_live h1 l"
      using live1 unfolding lf LL_def [symmetric] RR_def [symmetric] .
  qed
  then obtain h' where h': "for_each_pair f ps h1 = Ok () h'" and g2: "grows h1 h'"
    and fr2: "\<forall>x. x \<notin> set LL \<longrightarrow> lookup (coll_store h') x = lookup (coll_store h1) x"
    and lv2: "\<forall>l \<in> set LL. events_live h' l"
    and ct2: "map (\<lambda>p. ?C h' (fst p)) ps
           = map (\<lambda>p. append_contents (?C h1 (fst p)) (?C h1 (snd p))) ps"
    unfolding lf LL_def [symmetric] by auto
  have run: "for_each_pair f (p # ps) h = Ok () h'"
    using p h1 h' by simp
  have grow: "grows h h'"
    using g1 g2 by (rule grows_trans)
  have frame: "\<forall>x. x \<notin> set Lc \<union> set LL \<longrightarrow> lookup (coll_store h') x = lookup (coll_store h) x"
    using fr1 fr2 by simp
  have lives: "\<forall>l \<in> set Lc \<union> set LL. events_live h' l"
  proof
    fix l assume "l \<in> set Lc \<union> set LL"
    then show "events_live h' l"
    proof
      assume l: "l \<in> set Lc"
      with cl have "l \<notin> set LL" by auto
      with fr2 have "lookup (coll_store h') l = lookup (coll_store h1) l" by simp
      moreover from lv1 l have "events_live h1 l" by simp
      ultimately show ?thesis using g2 by (auto elim: events_live_frame)
    next
      assume "l \<in> set LL"
      with lv2 show ?thesis by simp
    qed
  qed
  have head: "contents n h' c = append_contents (contents n h c) (contents n h d)"
  proof -
    have "contents n h' c = contents n h1 c"
    proof (rule contents_frame [OF g2])
      show "\<forall>l \<in> set (leaves n h1 c). lookup (coll_store h') l = lookup (coll_store h1) l"
        using fr2 cl unfolding lf Lc_def [symmetric] by auto
      show "\<forall>l \<in> set (leaves n h1 c). events_live h1 l"
        using lv1 unfolding lf Lc_def [symmetric] .
    qed
    with ct1 show ?thesis by simp
  qed
  have tail: "append_contents (?C h1 (fst q)) (?C h1 (snd q))
      = append_contents (?C h (fst q)) (?C h (snd q))" if q: "q \<in> set ps" for q
  proof -
    define Lq where "Lq = ?L h (fst q)"
    define Rq where "Rq = ?L h (snd q)"
    from q have sub: "set Lq \<subseteq> set LL" "set Rq \<subseteq> set RR"
      unfolding Lq_def Rq_def LL_def RR_def by auto
    have "?C h1 (fst q) = ?C h (fst q)"
    proof (rule slot_contents_frame [OF g1])
      show "\<forall>l \<in> set (?L h (fst q)). lookup (coll_store h1) l = lookup (coll_store h) l"
        using sub(1) cl fr1 unfolding Lq_def [symmetric] by auto
      show "\<forall>l \<in> set (?L h (fst q)). events_live h l"
        using sub(1) live unfolding Lq_def [symmetric] by auto
    qed
    moreover have "?C h1 (snd q) = ?C h (snd q)"
    proof (rule slot_contents_frame [OF g1])
      show "\<forall>l \<in> set (?L h (snd q)). lookup (coll_store h1) l = lookup (coll_store h) l"
        using sub(2) lr fr1 unfolding Rq_def [symmetric] by auto
      show "\<forall>l \<in> set (?L h (snd q)). events_live h l"
        using sub(2) live unfolding Rq_def [symmetric] by auto
    qed
    ultimately show ?thesis by simp
  qed
  have conts: "map (\<lambda>p. ?C h' (fst p)) (p # ps)
      = map (\<lambda>p. append_contents (?C h (fst p)) (?C h (snd p))) (p # ps)"
    using head ct2 tail p by simp
  have eqL: "concat (map (?L h) (map fst (p # ps))) = Lc @ LL"
    using p by (simp add: Lc_def LL_def)
  from run grow frame lives conts show ?case
    unfolding eqL by simp
qed

lemma grows_cloned:
  assumes "lookup (coll_store h) a = Some (LeafEventCollection ow evs)"
  shows "grows h (cloned_heap a ow evs other_events h)"
  unfolding grows_def
proof (intro conjI allI)
  show "\<exists>es. event_store (cloned_heap a ow evs other_events h) = event_store h @ es"
    by (simp add: cloned_heap_def)
  fix x
  from assms have less: "a < length (coll_store h)"
    by (rule lookup_Some_less)
  show "case lookup (coll_store h) x of
      None \<Rightarrow> lookup (coll_store (cloned_heap a ow evs other_events h)) x = None
    | Some (LeafEventCollection ow0 evs0) \<Rightarrow>
        \<exists>ow' evs'. lookup (coll_store (cloned_heap a ow evs other_events h)) x
           = Some (LeafEventCollection ow' evs')
    | Some (DiagramEventCollection subs owned) \<Rightarrow>
        lookup (coll_store (cloned_heap a ow evs other_events h)) x
           = Some (DiagramEventCollection subs owned)"
  proof (cases "x = a")
    case True
    with assms less show ?thesis
      by (simp add: cloned_heap_def)
  next
    case False
    then show ?thesis
      by (simp add: cloned_heap_def split: option.splits EventCollection.splits)
  qed
qed

lemma map_option_Clone: "map_option Clone x = x"
  by (cases x) (simp_all add: Clone_def)

lemma map_fst_zip_fun:
  "length xs = length ys \<Longrightarrow> map (\<lambda>p. g (fst p)) (zip xs ys) = map g xs"
proof -
  assume "length xs = length ys"
  then have "map g (map fst (zip xs ys)) = map g xs"
    by simp
  then show ?thesis
    by (simp add: comp_def)
qed

lemma append_Children:
  "length ts = length us \<Longrightarrow>
     append_contents (Children (map g ts)) (Children (map g us))
       = Children (map (\<lambda>p. append_contents (g (fst p)) (g (snd p))) (zip ts us))"
  by (simp add: zip_map_map split_def)

lemma AddToEnd_merge:
  "same_shape n h a b \<Longrightarrow> distinct (leaves n h a) \<Longrightarrow>
   set (leaves n h a) \<inter> set (leaves n h b) = {} \<Longrightarrow>
   \<forall>l \<in> set (leaves n h a) \<union> set (leaves n h b). events_live h l \<Longrightarrow>
   \<exists>h'. AddToEnd n a b h = Ok () h' \<and> grows h h'
     \<and> (\<forall>x. x \<notin> set (leaves n h a) \<longrightarrow> lookup (coll_store h') x = lookup (coll_store h) x)
     \<and> (\<forall>l \<in> set (leaves n h a). events_live h' l)
     \<and> contents n h' a = append_contents (contents n h a) (contents n h b)"
proof (induction n arbitrary: a b h)
  case 0
  then show ?case by simp
next
  case (Suc n)
  show ?case
  proof (cases "lookup (coll_store h) a")
    case None
    with Suc.prems(1) show ?thesis by simp
  next
    case (Some cell)
    show ?thesis
    proof (cases cell)
      case (LeafEventCollection ow evs)
      with Some have a: "lookup (coll_store h) a = Some (LeafEventCollection ow evs)"
        by simp
      with Suc.prems(1) obtain oow oevs where
        b: "lookup (coll_store h) b = Some (LeafEventCollection oow oevs)"
        by (auto simp: is_leaf_def split: option.splits EventCollection.splits)
      from a b Suc.prems(3) have ab: "a \<noteq> b"
        by auto
      from a b Suc.prems(4) have live_a: "\<forall>e \<in> set evs. lookup (event_store h) e \<noteq> None"
        and live_b: "\<forall>e \<in> set oevs. lookup (event_store h) e \<noteq> None"
        by (simp_all add: events_live_def list_all_iff)
      let ?h' = "cloned_heap a ow evs oevs h"
      let ?new = "[length (event_store h) ..< length (event_store h) + length oevs]"
      let ?clones = "map (\<lambda>e. map_option Clone (lookup (event_store h) e)) oevs"
      from a have less: "a < length (coll_store h)"
        by (rule lookup_Some_less)
      have es': "event_store ?h' = event_store h @ ?clones"
        and cs': "coll_store ?h' = (coll_store h)[a := Some (LeafEventCollection
            (ow @ ?new) (evs @ ?new))]"
        by (simp_all add: cloned_heap_def)
      have run: "AddToEnd (Suc n) a b h = Ok () ?h'"
        by (rule AddToEnd_leaf_Ok [OF a b ab live_b])
      have grow: "grows h ?h'"
        by (rule grows_cloned [OF a])
      have frame: "\<forall>x. x \<notin> set (leaves (Suc n) h a) \<longrightarrow>
          lookup (coll_store ?h') x = lookup (coll_store h) x"
        using a by (simp add: cs')
      have a': "lookup (coll_store ?h') a = Some (LeafEventCollection (ow @ ?new) (evs @ ?new))"
        using less by (simp add: cs')
      have old: "map (lookup (event_store ?h')) evs = map (lookup (event_store h)) evs"
        using live_a by (simp add: es' lookup_append_live)
      have new: "map (lookup (event_store ?h')) ?new = ?clones"
        by (rule nth_equalityI) (simp_all add: es' lookup_def nth_append)
      have clones: "?clones = map (lookup (event_store h)) oevs"
        by (simp add: map_option_Clone)
      have lives: "\<forall>l \<in> set (leaves (Suc n) h a). events_live ?h' l"
      proof -
        have "\<forall>x \<in> set (map (lookup (event_store ?h')) (evs @ ?new)). x \<noteq> None"
          unfolding map_append old new clones using live_a live_b by auto
        then have "\<forall>e \<in> set (evs @ ?new). lookup (event_store ?h') e \<noteq> None"
          unfolding set_map by blast
        with a a' show ?thesis
          by (simp add: events_live_def list_all_iff)
      qed
      have conts: "contents (Suc n) ?h' a
          = append_contents (contents (Suc n) h a) (contents (Suc n) h b)"
        using a b a' old new clones by simp
      from run grow frame lives conts show ?thesis
        by blast
    next
      case (DiagramEventCollection subs owned)
      with Some have a: "lookup (coll_store h) a = Some (DiagramEventCollection subs owned)"
        by simp
      with Suc.prems(1) obtain osubs oowned where
        b: "lookup (coll_store h) b = Some (DiagramEventCollection osubs oowned)"
        and len: "length subs = length osubs"
        and all: "list_all (both (same_shape n h)) (zip subs osubs)"
        by (auto split: option.splits EventCollection.splits)
      let ?ps = "zip subs osubs"
      let ?L = "case_option [] (leaves n h)"
      from len have fst: "map fst ?ps = subs" and snd: "map snd ?ps = osubs"
        by simp_all
      have la: "leaves (Suc n) h a = concat (map ?L (map fst ?ps))"
        and lb: "leaves (Suc n) h b = concat (map ?L (map snd ?ps))"
        using a b unfolding fst snd by simp_all
      have "\<exists>h'. for_each_pair (AddToEnd n) ?ps h = Ok () h' \<and> grows h h'
         \<and> (\<forall>x. x \<notin> set (concat (map ?L (map fst ?ps))) \<longrightarrow>
              lookup (coll_store h') x = lookup (coll_store h) x)
         \<and> (\<forall>l \<in> set (concat (map ?L (map fst ?ps))). events_live h' l)
         \<and> map (\<lambda>p. case_option Invalid (contents n h') (fst p)) ?ps
             = map (\<lambda>p. append_contents (case_option Invalid (contents n h) (fst p))
                    (case_option Invalid (contents n h) (snd p))) ?ps"
      proof (rule for_each_pair_merge [where f = "AddToEnd n", OF Suc.IH all])
        show "distinct (concat (map ?L (map fst ?ps)))"
          using Suc.prems(2) unfolding la .
        show "set (concat (map ?L (map fst ?ps))) \<inter> set (concat (map ?L (map snd ?ps))) = {}"
          using Suc.prems(3) unfolding la lb .
        show "\<forall>l \<in> set (concat (map ?L (map fst ?ps))) \<union> set (concat (map ?L (map snd ?ps))).
            events_live h l"
          using Suc.prems(4) unfolding la lb .
      qed
      then obtain h' where run: "for_each_pair (AddToEnd n) ?ps h = Ok () h'"
        and grow: "grows h h'"
        and frame: "\<forall>x. x \<notin> set (leaves (Suc n) h a) \<longrightarrow>
            lookup (coll_store h') x = lookup (coll_store h) x"
        and lives: "\<forall>l \<in> set (leaves (Suc n) h a). events_live h' l"
        and conts: "map (\<lambda>p. case_option Invalid (contents n h') (fst p)) ?ps
             = map (\<lambda>p. append_contents (case_option Invalid (contents n h) (fst p))
                    (case_option Invalid (contents n h) (snd p))) ?ps"
        unfolding la [symmetric] by blast
      have run': "AddToEnd (Suc n) a b h = Ok () h'"
        using a b len run by simp
      have "contents (Suc n) h' a = Children (map (case_option Invalid (contents n h')) subs)"
        using grows_Diagram [OF grow a] by simp
      also have "map (case_option Invalid (contents n h')) subs
          = map (\<lambda>p. case_option Invalid (contents n h') (fst p)) ?ps"
        using map_fst_zip_fun [OF len, of "case_option Invalid (contents n h')"] by simp
      also note conts
      also have "Children (map (\<lambda>p. append_contents (case_option Invalid (contents n h) (fst p))
                    (case_option Invalid (contents n h) (snd p))) ?ps)
          = append_contents (contents (Suc n) h a) (contents (Suc n) h b)"
        using a b append_Children [OF len, of "case_option Invalid (contents n h)"] by simp
      finally have "contents (Suc n) h' a
          = append_contents (contents (Suc n) h a) (contents (Suc n) h b)" .
      with run' grow frame lives show ?thesis
        by blast
    qed
  qed
qed

lemma leaf_merge:
  assumes a: "lookup (coll_store h) a = Some (LeafEventCollection ow evs)"
    and b: "lookup (coll_store h) b = Some (LeafEventCollection oow oevs)"
    and ab: "a \<noteq> b"
    and la: "events_live h a" and lb: "events_live h b"
  shows "\<exists>h'. AddToEnd (Suc n) a b h = Ok () h' \<and> grows h h'
     \<and> (\<forall>x. x \<noteq> a \<longrightarrow> lookup (coll_store h') x = lookup (coll_store h) x)
     \<and> events_live h' a
     \<and> contents (Suc n) h' a
         = Events (map (lookup (event_store h)) evs @ map (lookup (event_store h)) oevs)"
proof -
  have "same_shape (Suc n) h a b"
    using a b by (simp add: is_leaf_def)
  moreover have "distinct (leaves (Suc n) h a)"
    using a by simp
  moreover have "set (leaves (Suc n) h a) \<inter> set (leaves (Suc n) h b) = {}"
    using a b ab by simp
  moreover have "\<forall>l \<in> set (leaves (Suc n) h a) \<union> set (leaves (Suc n) h b). events_live h l"
    using a b la lb by simp
  ultimately have "\<exists>h'. AddToEnd (Suc n) a b h = Ok () h' \<and> grows h h'
     \<and> (\<forall>x. x \<notin> set (leaves (Suc n) h a) \<longrightarrow>
          lookup (coll_store h') x = lookup (coll_store h) x)
     \<and> (\<forall>l \<in> set (leaves (Suc n) h a). events_live h' l)
     \<and> contents (Suc n) h' a
         = append_contents (contents (Suc n) h a) (contents (Suc n) h b)"
    by (rule AddToEnd_merge)
  then show ?thesis
    using a b by (simp del: AddToEnd.simps)
qed

lemma leaf_after_merge:
  assumes g: "grows h h'"
    and same: "lookup (coll_store h') c = lookup (coll_store h) c"
    and c: "lookup (coll_store h) c = Some (LeafEventCollection cow cevs)"
    and live: "events_live h c"
  shows "events_live h' c
     \<and> map (lookup (event_store h')) cevs = map (lookup (event_store h)) cevs"
proof -
  from c live have "\<forall>e \<in> set cevs. lookup (event_store h) e \<noteq> None"
    by (simp add: events_live_def list_all_iff)
  with grows_live [OF g] have "map (lookup (event_store h')) cevs = map (lookup (event_store h)) cevs"
    by simp
  with events_live_frame [OF g same live] show ?thesis
    by simp
qed

lemma contents_leaf:
  "contents (Suc n) h a = Events xs \<Longrightarrow>
     \<exists>ow evs. lookup (coll_store h) a = Some (LeafEventCollection ow evs)
       \<and> xs = map (lookup (event_store h)) evs"
  by (auto split: option.splits EventCollection.splits)

lemma leaf_merge_twice:
  assumes a: "lookup (coll_store h) a = Some (LeafEventCollection aow aevs)"
    and b: "lookup (coll_store h) b = Some (LeafEventCollection bow bevs)"
    and c: "lookup (coll_store h) c = Some (LeafEventCollection cow cevs)"
    and ne: "a \<noteq> b" "a \<noteq> c" "b \<noteq> c"
    and live: "events_live h a" "events_live h b" "events_live h c"
  shows "\<exists>h1. and_then (AddToEnd (Suc n) a b h) (\<lambda>_. AddToEnd (Suc n) a c) = Ok () h1
       \<and> contents (Suc n) h1 a = Events ((map (lookup (event_store h)) aevs
            @ map (lookup (event_store h)) bevs) @ map (lookup (event_store h)) cevs)"
    and "\<exists>h2. and_then (AddToEnd (Suc n) b c h) (\<lambda>_. AddToEnd (Suc n) a b) = Ok () h2
       \<and> contents (Suc n) h2 a = Events (map (lookup (event_store h)) aevs
            @ (map (lookup (event_store h)) bevs @ map (lookup (event_store h)) cevs))"
proof -
  let ?A = "map (lookup (event_store h)) aevs"
  let ?B = "map (lookup (event_store h)) bevs"
  let ?C = "map (lookup (event_store h)) cevs"
  from leaf_merge [OF a b ne(1) live(1,2), of n] obtain h1 where
    r1: "AddToEnd (Suc n) a b h = Ok () h1" and g1: "grows h h1"
    and f1: "\<forall>x. x \<noteq> a \<longrightarrow> lookup (coll_store h1) x = lookup (coll_store h) x"
    and l1: "events_live h1 a"
    and c1: "contents (Suc n) h1 a = Events (?A @ ?B)"
    by blast
  from contents_leaf [OF c1] obtain ow1 evs1 where
    a1: "lookup (coll_store h1) a = Some (LeafEventCollection ow1 evs1)"
    and e1: "?A @ ?B = map (lookup (event_store h1)) evs1"
    by blast
  from f1 ne(2) have "lookup (coll_store h1) c = lookup (coll_store h) c"
    by simp
  from leaf_after_merge [OF g1 this c live(3)] this c
  have cc: "lookup (coll_store h1) c = Some (LeafEventCollection cow cevs)"
    "events_live h1 c" "map (lookup (event_store h1)) cevs = ?C"
    by simp_all
  from leaf_merge [OF a1 cc(1) ne(2) l1 cc(2), of n] obtain h2 where
    r2: "AddToEnd (Suc n) a c h1 = Ok () h2"
    and c2: "contents (Suc n) h2 a
      = Events (map (lookup (event_store h1)) evs1 @ map (lookup (event_store h1)) cevs)"
    by blast
  from r1 r2 c2 e1 cc(3)
  show "\<exists>h1. and_then (AddToEnd (Suc n) a b h) (\<lambda>_. AddToEnd (Suc n) a c) = Ok () h1
       \<and> contents (Suc n) h1 a = Events ((?A @ ?B) @ ?C)"
    by (simp del: AddToEnd.simps contents.simps)
  from leaf_merge [OF b c ne(3) live(2,3), of n] obtain k1 where
    s1: "AddToEnd (Suc n) b c h = Ok () k1" and gk: "grows h k1"
    and fk: "\<forall>x. x \<noteq> b \<longrightarrow> lookup (coll_store k1) x = lookup (coll_store h) x"
    and lk: "events_live k1 b"
    and ck: "contents (Suc n) k1 b = Events (?B @ ?C)"
    by blast
  from contents_leaf [OF ck] obtain owb evsb where
    b1: "lookup (coll_store k1) b = Some (LeafEventCollection owb evsb)"
    and eb: "?B @ ?C = map (lookup (event_store k1)) evsb"
    by blast
  from fk ne(1) have "lookup (coll_store k1) a = lookup (coll_store h) a"
    by simp
  from leaf_after_merge [OF gk this a live(1)] this a
  have aa: "lookup (coll_store k1) a = Some (LeafEventCollection aow aevs)"
    "events_live k1 a" "map (lookup (event_store k1)) aevs = ?A"
    by simp_all
  from leaf_merge [OF aa(1) b1 ne(1) aa(2) lk, of n] obtain k2 where
    s2: "AddToEnd (Suc n) a b k1 = Ok () k2"
    and d2: "contents (Suc n) k2 a
      = Events (map (lookup (event_store k1)) aevs @ map (lookup (event_store k1)) evsb)"
    by blast
  from s1 s2 d2 eb aa(3)
  show "\<exists>h2. and_then (AddToEnd (Suc n) b c h) (\<lambda>_. AddToEnd (Suc n) a b) = Ok () h2
       \<and> contents (Suc n) h2 a = Events (?A @ (?B @ ?C))"
    by (simp del: AddToEnd.simps contents.simps)
qed

lemma mergeable_merge:
  assumes "mergeable n h a b"
  shows "\<exists>h'. AddToEnd n a b h = Ok () h'
     \<and> contents n h' a = append_contents (contents n h a) (contents n h b)
     \<and> contents n h' b = contents n h b"
proof -
  from assms have s: "same_shape n h a b" and d: "distinct (leaves n h a)"
    and i: "set (leaves n h a) \<inter> set (leaves n h b) = {}"
    and l: "\<forall>l \<in> set (leaves n h a) \<union> set (leaves n h b). events_live h l"
    by (simp_all add: mergeable_def list_all_iff)
  from AddToEnd_merge [OF s d i l] obtain h' where r: "AddToEnd n a b h = Ok () h'"
    and g: "grows h h'"
    and f: "\<forall>x. x \<notin> set (leaves n h a) \<longrightarrow> lookup (coll_store h') x = lookup (coll_store h) x"
    and ct: "contents n h' a = append_contents (contents n h a) (contents n h b)"
    by blast
  have "contents n h' b = contents n h b"
  proof (rule contents_frame [OF g])
    show "\<forall>l \<in> set (leaves n h b). lookup (coll_store h') l = lookup (coll_store h) l"
      using i f by auto
    show "\<forall>l \<in> set (leaves n h b). events_live h l"
      using l by auto
  qed
  with r ct show ?thesis
    by blast
qed

lemma in_kind_merge:
  assumes "mergeable n (kind_heap k h) x y"
  shows "\<exists>kh. in_kind k (AddToEnd n x y) h = Ok () (set_kind_heap k kh h)
     \<and> contents n kh x
         = append_contents (contents n (kind_heap k h) x) (contents n (kind_heap k h) y)"
  using mergeable_merge [OF assms] by (auto simp: in_kind_def)

lemma bundle_merge:
  assumes a: "lookup (composite_store h) a = Some ca"
    and b: "lookup (composite_store h) b = Some cb"
    and m: "\<And>k. mergeable n (kind_heap k h) (kind_events k ca) (kind_events k cb)"
  shows "\<exists>h'. AddToEnd_composite n a b h = Ok () h'
     \<and> (\<forall>k. contents n (kind_heap k h') (kind_events k ca)
          = append_contents (contents n (kind_heap k h) (kind_events k ca))
              (contents n (kind_heap k h) (kind_events k cb)))"
proof -
  from in_kind_merge [OF m [of Publish]] obtain kp where
    kp: "in_kind Publish (AddToEnd n (publish_events ca) (publish_events cb)) h
        = Ok () (set_kind_heap Publish kp h)"
      "contents n kp (publish_events ca) = append_contents
         (contents n (publish_heap h) (publish_events ca))
         (contents n (publish_heap h) (publish_events cb))"
    by auto
  let ?h1 = "set_kind_heap Publish kp h"
  have "mergeable n (kind_heap DiscreteUpdate ?h1)
      (kind_events DiscreteUpdate ca) (kind_events DiscreteUpdate cb)"
    using m [of DiscreteUpdate] by simp
  from in_kind_merge [OF this] obtain kd where
    kd: "in_kind DiscreteUpdate
          (AddToEnd n (discrete_update_events ca) (discrete_update_events cb)) ?h1
        = Ok () (set_kind_heap DiscreteUpdate kd ?h1)"
      "contents n kd (discrete_update_events ca) = append_contents
         (contents n (discrete_update_heap h) (discrete_update_events ca))
         (contents n (discrete_update_heap h) (discrete_update_events cb))"
    by auto
  let ?h2 = "set_kind_heap DiscreteUpdate kd ?h1"
  have "mergeable n (kind_heap UnrestrictedUpdate ?h2)
      (kind_events UnrestrictedUpdate ca) (kind_events UnrestrictedUpdate cb)"
    using m [of UnrestrictedUpdate] by simp
  from in_kind_merge [OF this] obtain ku where
    ku: "in_kind UnrestrictedUpdate
          (AddToEnd n (unrestricted_update_events ca) (unrestricted_update_events cb)) ?h2
        = Ok () (set_kind_heap UnrestrictedUpdate ku ?h2)"
      "contents n ku (unrestricted_update_events ca) = append_contents
         (contents n (unrestricted_update_heap h) (unrestricted_update_events ca))
         (contents n (unrestricted_update_heap h) (unrestricted_update_events cb))"
    by auto
  let ?h3 = "set_kind_heap UnrestrictedUpdate ku ?h2"
  have "AddToEnd_composite n a b h = Ok () ?h3"
    using a b kp(1) kd(1) ku(1) by (simp add: AddToEnd_composite_def)
  moreover have "\<forall>k. contents n (kind_heap k ?h3) (kind_events k ca)
          = append_contents (contents n (kind_heap k h) (kind_events k ca))
              (contents n (kind_heap k h) (kind_events k cb))"
    using kp(2) kd(2) ku(2) by (simp add: Kind_all)
  ultimately show ?thesis
    by blast
qed


text \<open>
  C3. Merging a leaf collection that holds \<open>B\<close> into another leaf collection that
  holds \<open>A\<close> returns and leaves the receiver holding \<open>A\<close> followed by \<open>B\<close>. Merging
  two collections of equal shape does so child by child and leaves the other collection's
  contents as they were; merging two bundles does so for each kind. Merging \<open>b\<close> and
  then \<open>c\<close> into a leaf \<open>a\<close> gives \<open>a\<close> the contents that merging \<open>c\<close> into \<open>b\<close>
  and then \<open>b\<close> into \<open>a\<close> gives it: \<open>A\<close>, then \<open>B\<close>, then \<open>C\<close>.
\<close>

theorem merge_appends:
  "(lookup (coll_store h) a = Some (LeafEventCollection aow aevs)
      \<and> lookup (coll_store h) b = Some (LeafEventCollection bow bevs)
      \<and> a \<noteq> b \<and> events_live h a \<and> events_live h b
    \<longrightarrow> (\<exists>h'. AddToEnd (Suc n) a b h = Ok () h'
          \<and> contents (Suc n) h' a = Events (map (lookup (event_store h)) aevs
               @ map (lookup (event_store h)) bevs)))
   \<and> (mergeable n h a b
    \<longrightarrow> (\<exists>h'. AddToEnd n a b h = Ok () h'
          \<and> contents n h' a = append_contents (contents n h a) (contents n h b)
          \<and> contents n h' b = contents n h b))
   \<and> (lookup (composite_store H) x = Some cx \<and> lookup (composite_store H) y = Some cy
      \<and> (\<forall>k. mergeable n (kind_heap k H) (kind_events k cx) (kind_events k cy))
    \<longrightarrow> (\<exists>H'. AddToEnd_composite n x y H = Ok () H'
          \<and> (\<forall>k. contents n (kind_heap k H') (kind_events k cx)
               = append_contents (contents n (kind_heap k H) (kind_events k cx))
                   (contents n (kind_heap k H) (kind_events k cy)))))
   \<and> (lookup (coll_store h) a = Some (LeafEventCollection aow aevs)
      \<and> lookup (coll_store h) b = Some (LeafEventCollection bow bevs)
      \<and> lookup (coll_store h) c = Some (LeafEventCollection cow cevs)
      \<and> a \<noteq> b \<and> a \<noteq> c \<and> b \<noteq> c
      \<and> events_live h a \<and> events_live h b \<and> events_live h c
    \<longrightarrow> (\<exists>h1 h2.
          and_then (AddToEnd (Suc n) a b h) (\<lambda>_. AddToEnd (Suc n) a c) = Ok () h1
          \<and> and_then (AddToEnd (Suc n) b c h) (\<lambda>_. AddToEnd (Suc n) a b) = Ok () h2
          \<and> contents (Suc n) h1 a = contents (Suc n) h2 a
          \<and> contents (Suc n) h1 a = Events (map (lookup (event_store h)) aevs
               @ map (lookup (event_store h)) bevs @ map (lookup (event_store h)) cevs)))"
proof (intro conjI impI)
  assume "lookup (coll_store h) a = Some (LeafEventCollection aow aevs)
      \<and> lookup (coll_store h) b = Some (LeafEventCollection bow bevs)
      \<and> a \<noteq> b \<and> events_live h a \<and> events_live h b"
  then show "\<exists>h'. AddToEnd (Suc n) a b h = Ok () h'
          \<and> contents (Suc n) h' a = Events (map (lookup (event_store h)) aevs
               @ map (lookup (event_store h)) bevs)"
    using leaf_merge [of h a aow aevs b bow bevs n] by blast
next
  assume "mergeable n h a b"
  then show "\<exists>h'. AddToEnd n a b h = Ok () h'
          \<and> contents n h' a = append_contents (contents n h a) (contents n h b)
          \<and> contents n h' b = contents n h b"
    by (rule mergeable_merge)
next
  assume "lookup (composite_store H) x = Some cx \<and> lookup (composite_store H) y = Some cy
      \<and> (\<forall>k. mergeable n (kind_heap k H) (kind_events k cx) (kind_events k cy))"
  then show "\<exists>H'. AddToEnd_composite n x y H = Ok () H'
          \<and> (\<forall>k. contents n (kind_heap k H') (kind_events k cx)
               = append_contents (contents n (kind_heap k H) (kind_events k cx))
                   (contents n (kind_heap k H) (kind_events k cy)))"
    using bundle_merge [of H x cx y cy n] by blast
next
  assume *: "lookup (coll_store h) a = Some (LeafEventCollection aow aevs)
      \<and> lookup (coll_store h) b = Some (LeafEventCollection bow bevs)
      \<and> lookup (coll_store h) c = Some (LeafEventCollection cow cevs)
      \<and> a \<noteq> b \<and> a \<noteq> c \<and> b \<noteq> c
      \<and> events_live h a \<and> events_live h b \<and> events_live h c"
  from * leaf_merge_twice(1) [of h a aow aevs b bow bevs c cow cevs n]
  obtain h1 where 1: "and_then (AddToEnd (Suc n) a b h) (\<lambda>_. AddToEnd (Suc n) a c) = Ok () h1"
    "contents (Suc n) h1 a = Events ((map (lookup (event_store h)) aevs
            @ map (lookup (event_store h)) bevs) @ map (lookup (event_store h)) cevs)"
    by blast
  from * leaf_merge_twice(2) [of h a aow aevs b bow bevs c cow cevs n]
  obtain h2 where 2: "and_then (AddToEnd (Suc n) b c h) (\<lambda>_. AddToEnd (Suc n) a b) = Ok () h2"
    "contents (Suc n) h2 a = Events (map (lookup (event_store h)) aevs
            @ (map (lookup (event_store h)) bevs @ map (lookup (event_store h)) cevs))"
    by blast
  from 1 2 show "\<exists>h1 h2.
          and_then (AddToEnd (Suc n) a b h) (\<lambda>_. AddToEnd (Suc n) a c) = Ok () h1
          \<and> and_then (AddToEnd (Suc n) b c h) (\<lambda>_. AddToEnd (Suc n) a b) = Ok () h2
          \<and> contents (Suc n) h1 a = contents (Suc n) h2 a
          \<and> contents (Suc n) h1 a = Events (map (lookup (event_store h)) aevs
               @ map (lookup (event_store h)) bevs @ map (lookup (event_store h)) cevs)"
    by (intro exI [of _ h1] exI [of _ h2]) (simp del: AddToEnd.simps contents.simps)
qed

lemmas example_shape_simps =
  example_heap_simps mergeable_def events_live_def is_leaf_def

theorem merge_appends_witness:
  "(\<exists>h'. AddToEnd (Suc 0) 0 1 example_kheap = Ok () h'
      \<and> contents (Suc 0) h' 0 = Events
          [Some \<lparr>trigger_type = kPeriodic, event_data = Some 1, callback = Some 1\<rparr>,
           Some \<lparr>trigger_type = kPerStep, event_data = Some 2, callback = Some 2\<rparr>,
           Some \<lparr>trigger_type = kForced, event_data = None, callback = None\<rparr>])
   \<and> mergeable (Suc (Suc 0)) example_kheap 6 2
   \<and> (\<exists>h'. AddToEnd (Suc (Suc 0)) 6 2 example_kheap = Ok () h'
      \<and> contents (Suc (Suc 0)) h' 6 = Children
          [Events [Some \<lparr>trigger_type = kPeriodic, event_data = Some 1, callback = Some 1\<rparr>,
             Some \<lparr>trigger_type = kPerStep, event_data = Some 2, callback = Some 2\<rparr>],
           Events [Some \<lparr>trigger_type = kForced, event_data = None, callback = None\<rparr>]]
      \<and> contents (Suc (Suc 0)) h' 2 = contents (Suc (Suc 0)) example_kheap 2)
   \<and> (\<exists>H'. AddToEnd_composite (Suc (Suc 0)) 5 2 example_heap = Ok () H'
      \<and> contents (Suc (Suc 0)) (discrete_update_heap H') 6 = Children
          [Events [Some \<lparr>trigger_type = kPeriodic, event_data = Some 1, callback = Some 1\<rparr>,
             Some \<lparr>trigger_type = kPerStep, event_data = Some 2, callback = Some 2\<rparr>],
           Events [Some \<lparr>trigger_type = kForced, event_data = None, callback = None\<rparr>]])
   \<and> (\<exists>h1 h2.
        and_then (AddToEnd (Suc 0) 4 0 example_kheap) (\<lambda>_. AddToEnd (Suc 0) 4 1) = Ok () h1
      \<and> and_then (AddToEnd (Suc 0) 0 1 example_kheap) (\<lambda>_. AddToEnd (Suc 0) 4 0) = Ok () h2
      \<and> contents (Suc 0) h1 4 = contents (Suc 0) h2 4
      \<and> contents (Suc 0) h1 4 = Events
          [Some \<lparr>trigger_type = kPeriodic, event_data = Some 1, callback = Some 1\<rparr>,
           Some \<lparr>trigger_type = kPerStep, event_data = Some 2, callback = Some 2\<rparr>,
           Some \<lparr>trigger_type = kForced, event_data = None, callback = None\<rparr>])"
proof -
  have l0: "lookup (coll_store example_kheap) 0 = Some (LeafEventCollection [0, 1] [0, 1])"
    and l1: "lookup (coll_store example_kheap) 1 = Some (LeafEventCollection [2] [2])"
    and l4: "lookup (coll_store example_kheap) 4 = Some (LeafEventCollection [] [])"
    and live: "events_live example_kheap 0" "events_live example_kheap 1"
      "events_live example_kheap 4"
    by (simp_all add: example_shape_simps)
  have ev: "map (lookup (event_store example_kheap)) [0, 1]
      = [Some \<lparr>trigger_type = kPeriodic, event_data = Some 1, callback = Some 1\<rparr>,
         Some \<lparr>trigger_type = kPerStep, event_data = Some 2, callback = Some 2\<rparr>]"
    "map (lookup (event_store example_kheap)) [2]
      = [Some \<lparr>trigger_type = kForced, event_data = None, callback = None\<rparr>]"
    by (simp_all add: example_heap_simps)
  have m: "mergeable (Suc (Suc 0)) example_kheap 6 2"
    by (simp add: example_shape_simps)
  have c: "contents (Suc (Suc 0)) example_kheap 6 = Children [Events [], Events []]"
    "contents (Suc (Suc 0)) example_kheap 2 = Children
          [Events [Some \<lparr>trigger_type = kPeriodic, event_data = Some 1, callback = Some 1\<rparr>,
             Some \<lparr>trigger_type = kPerStep, event_data = Some 2, callback = Some 2\<rparr>],
           Events [Some \<lparr>trigger_type = kForced, event_data = None, callback = None\<rparr>]]"
    by (simp_all add: example_heap_simps)
  have cells: "lookup (composite_store example_heap) 5
        = Some (DiagramCompositeEventCollection 6 6 6 [Some 3, Some 4])"
    "lookup (composite_store example_heap) 2
        = Some (DiagramCompositeEventCollection 2 2 2 [Some 0, Some 1])"
    by (simp_all add: example_heap_simps)
  have km: "\<forall>k. mergeable (Suc (Suc 0)) (kind_heap k example_heap)
      (kind_events k (DiagramCompositeEventCollection 6 6 6 [Some 3, Some 4]))
      (kind_events k (DiagramCompositeEventCollection 2 2 2 [Some 0, Some 1]))"
    using m by (simp add: Kind_all example_heap_def)
  note T1 = merge_appends [where h = example_kheap and a = 0 and b = 1 and n = 0
      and aow = "[0, 1]" and aevs = "[0, 1]" and bow = "[2]" and bevs = "[2]",
      THEN conjunct1, rule_format]
  note T2 = merge_appends [where h = example_kheap and a = 6 and b = 2 and n = "Suc (Suc 0)",
      THEN conjunct2, THEN conjunct1, rule_format, OF m]
  note T3 = merge_appends [where H = example_heap and x = 5 and y = 2 and n = "Suc (Suc 0)",
      THEN conjunct2, THEN conjunct2, THEN conjunct1, rule_format, OF conjI [OF cells(1)
        conjI [OF cells(2) km]]]
  note T4 = merge_appends [where h = example_kheap and a = 4 and b = 0 and c = 1 and n = 0
      and aow = "[]" and aevs = "[]" and bow = "[0, 1]" and bevs = "[0, 1]"
      and cow = "[2]" and cevs = "[2]",
      THEN conjunct2, THEN conjunct2, THEN conjunct2, rule_format]
  have 1: "\<exists>h'. AddToEnd (Suc 0) 0 1 example_kheap = Ok () h'
      \<and> contents (Suc 0) h' 0 = Events
          [Some \<lparr>trigger_type = kPeriodic, event_data = Some 1, callback = Some 1\<rparr>,
           Some \<lparr>trigger_type = kPerStep, event_data = Some 2, callback = Some 2\<rparr>,
           Some \<lparr>trigger_type = kForced, event_data = None, callback = None\<rparr>]"
    using T1 l0 l1 live ev by (simp del: AddToEnd.simps contents.simps)
  have 2: "\<exists>h'. AddToEnd (Suc (Suc 0)) 6 2 example_kheap = Ok () h'
      \<and> contents (Suc (Suc 0)) h' 6 = Children
          [Events [Some \<lparr>trigger_type = kPeriodic, event_data = Some 1, callback = Some 1\<rparr>,
             Some \<lparr>trigger_type = kPerStep, event_data = Some 2, callback = Some 2\<rparr>],
           Events [Some \<lparr>trigger_type = kForced, event_data = None, callback = None\<rparr>]]
      \<and> contents (Suc (Suc 0)) h' 2 = contents (Suc (Suc 0)) example_kheap 2"
    using T2 unfolding c by (simp del: AddToEnd.simps contents.simps)
  from T3 obtain H' where
    r3: "AddToEnd_composite (Suc (Suc 0)) 5 2 example_heap = Ok () H'"
    "\<forall>k. contents (Suc (Suc 0)) (kind_heap k H')
          (kind_events k (DiagramCompositeEventCollection 6 6 6 [Some 3, Some 4]))
        = append_contents (contents (Suc (Suc 0)) (kind_heap k example_heap)
            (kind_events k (DiagramCompositeEventCollection 6 6 6 [Some 3, Some 4])))
          (contents (Suc (Suc 0)) (kind_heap k example_heap)
            (kind_events k (DiagramCompositeEventCollection 2 2 2 [Some 0, Some 1])))"
    by blast
  have dh: "discrete_update_heap example_heap = example_kheap"
    by (simp add: example_heap_def)
  from r3(2) [rule_format, of DiscreteUpdate]
  have "contents (Suc (Suc 0)) (discrete_update_heap H') 6 = Children
          [Events [Some \<lparr>trigger_type = kPeriodic, event_data = Some 1, callback = Some 1\<rparr>,
             Some \<lparr>trigger_type = kPerStep, event_data = Some 2, callback = Some 2\<rparr>],
           Events [Some \<lparr>trigger_type = kForced, event_data = None, callback = None\<rparr>]]"
    unfolding kind_heap.simps kind_events.simps CompositeEventCollection.sel dh c
    by simp
  with r3(1) have b3: "\<exists>H'. AddToEnd_composite (Suc (Suc 0)) 5 2 example_heap = Ok () H'
      \<and> contents (Suc (Suc 0)) (discrete_update_heap H') 6 = Children
          [Events [Some \<lparr>trigger_type = kPeriodic, event_data = Some 1, callback = Some 1\<rparr>,
             Some \<lparr>trigger_type = kPerStep, event_data = Some 2, callback = Some 2\<rparr>],
           Events [Some \<lparr>trigger_type = kForced, event_data = None, callback = None\<rparr>]]"
    by blast
  have 4: "\<exists>h1 h2.
        and_then (AddToEnd (Suc 0) 4 0 example_kheap) (\<lambda>_. AddToEnd (Suc 0) 4 1) = Ok () h1
      \<and> and_then (AddToEnd (Suc 0) 0 1 example_kheap) (\<lambda>_. AddToEnd (Suc 0) 4 0) = Ok () h2
      \<and> contents (Suc 0) h1 4 = contents (Suc 0) h2 4
      \<and> contents (Suc 0) h1 4 = Events
          [Some \<lparr>trigger_type = kPeriodic, event_data = Some 1, callback = Some 1\<rparr>,
           Some \<lparr>trigger_type = kPerStep, event_data = Some 2, callback = Some 2\<rparr>,
           Some \<lparr>trigger_type = kForced, event_data = None, callback = None\<rparr>]"
    using T4 l0 l1 l4 live ev by (simp del: AddToEnd.simps contents.simps)
  from 1 m 2 b3 4 show ?thesis
    by blast
qed

section \<open>Unpopulated slots\<close>





















section \<open>SetFrom\<close>

lemma same_shape_populated: "same_shape n h a b \<Longrightarrow> populated n h a"
proof (induction n arbitrary: a b)
  case 0
  then show ?case by simp
next
  case (Suc n)
  show ?case
  proof (cases "lookup (coll_store h) a")
    case None
    with Suc.prems show ?thesis by simp
  next
    case (Some cell)
    show ?thesis
    proof (cases cell)
      case (LeafEventCollection ow evs)
      with Some show ?thesis by simp
    next
      case (DiagramEventCollection subs owned)
      with Some Suc.prems obtain osubs oowned where
        len: "length subs = length osubs"
        and all: "list_all (both (same_shape n h)) (zip subs osubs)"
        by (auto split: option.splits EventCollection.splits)
      have "case s of None \<Rightarrow> False | Some c \<Rightarrow> populated n h c" if "s \<in> set subs" for s
      proof -
        from that len obtain t where "(s, t) \<in> set (zip subs osubs)"
          by (metis in_set_impl_in_set_zip1)
        with all have "both (same_shape n h) (s, t)"
          by (simp add: list_all_iff)
        then obtain c d where "s = Some c" "same_shape n h c d"
          unfolding both_Some by blast
        with Suc.IH show ?thesis
          by auto
      qed
      then have "list_all (\<lambda>s. case s of None \<Rightarrow> False | Some c \<Rightarrow> populated n h c) subs"
        by (simp add: list_all_iff)
      with Some DiagramEventCollection show ?thesis
        by simp
    qed
  qed
qed

lemma leaves_cleared: "cleared h h' \<Longrightarrow> leaves n h' a = leaves n h a"
proof (induction n arbitrary: a)
  case 0
  then show ?case by simp
next
  case (Suc n)
  have ih: "leaves n h' = leaves n h"
    by (rule ext) (rule Suc.IH [OF Suc.prems])
  show ?case
  proof (cases "lookup (coll_store h) a")
    case None
    with cleared_lookup_None [OF Suc.prems] show ?thesis by simp
  next
    case (Some cell)
    show ?thesis
    proof (cases cell)
      case (LeafEventCollection ow evs)
      with Some cleared_lookup_leaf [OF Suc.prems, of a ow evs] show ?thesis
        by auto
    next
      case (DiagramEventCollection subs owned)
      with Some cleared_lookup [OF Suc.prems, of a subs owned] ih show ?thesis
        by simp
    qed
  qed
qed

lemma same_shape_cleared: "cleared h h' \<Longrightarrow> same_shape n h a b \<Longrightarrow> same_shape n h' a b"
proof (induction n arbitrary: a b)
  case 0
  then show ?case by simp
next
  case (Suc n)
  show ?case
  proof (cases "lookup (coll_store h) a")
    case None
    with Suc.prems show ?thesis by simp
  next
    case (Some cell)
    show ?thesis
    proof (cases cell)
      case (LeafEventCollection ow evs)
      with Some Suc.prems cleared_lookup_leaf [OF Suc.prems(1), of a ow evs] show ?thesis
        by (auto intro: is_leaf_cleared)
    next
      case (DiagramEventCollection subs owned)
      with Some Suc.prems(2) obtain osubs oowned where
        b: "lookup (coll_store h) b = Some (DiagramEventCollection osubs oowned)"
        and len: "length subs = length osubs"
        and all: "list_all (both (same_shape n h)) (zip subs osubs)"
        by (auto split: option.splits EventCollection.splits)
      from all have "list_all (both (same_shape n h')) (zip subs osubs)"
        by (rule list.pred_mono_strong) (erule both_mono, rule Suc.IH [OF Suc.prems(1)])
      with Some DiagramEventCollection b len cleared_lookup [OF Suc.prems(1)] show ?thesis
        by simp
    qed
  qed
qed

lemma cell_owned_cleared: "cleared h h' \<Longrightarrow> set (cell_owned h' l) \<subseteq> set (cell_owned h l)"
proof (cases "lookup (coll_store h) l")
  case None
  assume "cleared h h'"
  from cleared_lookup_None [OF this None] show ?thesis
    by (simp add: cell_owned_def owned_by_def)
next
  case (Some cell)
  assume c: "cleared h h'"
  show ?thesis
  proof (cases cell)
    case (LeafEventCollection ow evs)
    with Some cleared_lookup_leaf [OF c, of l ow evs] show ?thesis
      by (auto simp: cell_owned_def owned_by_def)
  next
    case (DiagramEventCollection subs owned)
    with Some cleared_lookup [OF c, of l subs owned] show ?thesis
      by (simp add: cell_owned_def owned_by_def)
  qed
qed

lemma delete_events_other: "e \<notin> set ow \<Longrightarrow> lookup (delete_events ow es) e = lookup es e"
  unfolding delete_events_def by (induction ow arbitrary: es) simp_all

lemma owned_below_cleared:
  "cleared h h' \<Longrightarrow> set (concat (map (cell_owned h') L)) \<subseteq> set (concat (map (cell_owned h) L))"
  using cell_owned_cleared [of h h'] by auto

lemma for_each_Clear_frame:
  assumes step: "\<And>c h h'. f c h = Ok () h' \<Longrightarrow> cleared h h'
      \<and> (\<forall>x. x \<notin> set (leaves n h c) \<longrightarrow> lookup (coll_store h') x = lookup (coll_store h) x)
      \<and> (\<forall>e. e \<notin> set (concat (map (cell_owned h) (leaves n h c))) \<longrightarrow>
            lookup (event_store h') e = lookup (event_store h) e)"
  shows "for_each f subs h = Ok () h' \<Longrightarrow> cleared h h'
      \<and> (\<forall>x. x \<notin> set (concat (map (case_option [] (leaves n h)) subs)) \<longrightarrow>
            lookup (coll_store h') x = lookup (coll_store h) x)
      \<and> (\<forall>e. e \<notin> set (concat (map (cell_owned h)
              (concat (map (case_option [] (leaves n h)) subs)))) \<longrightarrow>
            lookup (event_store h') e = lookup (event_store h) e)"
proof (induction subs arbitrary: h)
  case Nil
  then show ?case by (simp add: cleared_refl)
next
  case (Cons s subs)
  from Cons.prems obtain c h1 where s: "s = Some c" and h1: "f c h = Ok () h1"
    and rest: "for_each f subs h1 = Ok () h'"
    by (auto simp: and_then_Ok_iff split: option.splits)
  define Lc where "Lc = leaves n h c"
  define Ls where "Ls = concat (map (case_option [] (leaves n h)) subs)"
  from step [OF h1] have c1: "cleared h h1"
    and fc1: "\<forall>x. x \<notin> set Lc \<longrightarrow> lookup (coll_store h1) x = lookup (coll_store h) x"
    and fe1: "\<forall>e. e \<notin> set (concat (map (cell_owned h) Lc)) \<longrightarrow>
            lookup (event_store h1) e = lookup (event_store h) e"
    unfolding Lc_def by simp_all
  have lf: "leaves n h1 = leaves n h"
    by (rule ext) (rule leaves_cleared [OF c1])
  from Cons.IH [OF rest] have c2: "cleared h1 h'"
    and fc2: "\<forall>x. x \<notin> set Ls \<longrightarrow> lookup (coll_store h') x = lookup (coll_store h1) x"
    and fe2: "\<forall>e. e \<notin> set (concat (map (cell_owned h1) Ls)) \<longrightarrow>
            lookup (event_store h') e = lookup (event_store h1) e"
    unfolding lf Ls_def by simp_all
  have sub: "set (concat (map (cell_owned h1) Ls)) \<subseteq> set (concat (map (cell_owned h) Ls))"
    by (rule owned_below_cleared [OF c1])
  have eqL: "concat (map (case_option [] (leaves n h)) (s # subs)) = Lc @ Ls"
    using s by (simp add: Lc_def Ls_def)
  have "cleared h h'"
    using c1 c2 by (rule cleared_trans)
  moreover have "\<forall>x. x \<notin> set (Lc @ Ls) \<longrightarrow> lookup (coll_store h') x = lookup (coll_store h) x"
    using fc1 fc2 by simp
  moreover have "\<forall>e. e \<notin> set (concat (map (cell_owned h) (Lc @ Ls))) \<longrightarrow>
            lookup (event_store h') e = lookup (event_store h) e"
  proof (intro allI impI)
    fix e assume e: "e \<notin> set (concat (map (cell_owned h) (Lc @ Ls)))"
    then have "e \<notin> set (concat (map (cell_owned h) Lc))"
      and "e \<notin> set (concat (map (cell_owned h) Ls))"
      by simp_all
    with sub have "e \<notin> set (concat (map (cell_owned h) Lc))"
      and "e \<notin> set (concat (map (cell_owned h1) Ls))"
      by auto
    with fe1 fe2 show "lookup (event_store h') e = lookup (event_store h) e"
      by simp
  qed
  ultimately show ?case
    unfolding eqL by simp
qed

lemma Clear_frame:
  "Clear n a h = Ok () h' \<Longrightarrow> cleared h h'
      \<and> (\<forall>x. x \<notin> set (leaves n h a) \<longrightarrow> lookup (coll_store h') x = lookup (coll_store h) x)
      \<and> (\<forall>e. e \<notin> set (concat (map (cell_owned h) (leaves n h a))) \<longrightarrow>
            lookup (event_store h') e = lookup (event_store h) e)"
proof (induction n arbitrary: a h h')
  case 0
  then show ?case by simp
next
  case (Suc n)
  show ?case
  proof (cases "lookup (coll_store h) a")
    case None
    with Suc.prems show ?thesis by simp
  next
    case (Some cell)
    show ?thesis
    proof (cases cell)
      case (LeafEventCollection ow evs)
      with Some Suc.prems have h': "h' = put_collection a (LeafEventCollection [] [])
          (h\<lparr>event_store := delete_events ow (event_store h)\<rparr>)"
        by simp
      have "cleared h h'"
        unfolding h' using Some LeafEventCollection by (intro cleared_put_leaf) simp
      moreover have "\<forall>x. x \<notin> set (leaves (Suc n) h a) \<longrightarrow>
          lookup (coll_store h') x = lookup (coll_store h) x"
        using Some LeafEventCollection by (simp add: h' put_collection_def)
      moreover have "\<forall>e. e \<notin> set (concat (map (cell_owned h) (leaves (Suc n) h a))) \<longrightarrow>
          lookup (event_store h') e = lookup (event_store h) e"
        using Some LeafEventCollection
        by (simp add: h' put_collection_def cell_owned_def owned_by_def delete_events_other)
      ultimately show ?thesis
        by blast
    next
      case (DiagramEventCollection subs owned)
      with Some Suc.prems have "for_each (Clear n) subs h = Ok () h'"
        by simp
      from for_each_Clear_frame [where f = "Clear n" and n = n, OF Suc.IH this]
      show ?thesis
        using Some DiagramEventCollection by simp
    qed
  qed
qed

lemma all_empty_leaves:
  "all_empty n h a \<Longrightarrow> l \<in> set (leaves n h a) \<Longrightarrow> cell_events h l = []"
proof (induction n arbitrary: a)
  case 0
  then show ?case by simp
next
  case (Suc n)
  show ?case
  proof (cases "lookup (coll_store h) a")
    case None
    with Suc.prems show ?thesis by simp
  next
    case (Some cell)
    show ?thesis
    proof (cases cell)
      case (LeafEventCollection ow evs)
      with Some Suc.prems show ?thesis
        by (simp add: cell_events_def)
    next
      case (DiagramEventCollection subs owned)
      with Some Suc.prems obtain c where "Some c \<in> set subs" "l \<in> set (leaves n h c)"
        by (auto split: option.splits)
      moreover from Some DiagramEventCollection Suc.prems(1)
      have "list_all (\<lambda>s. case s of None \<Rightarrow> False | Some c \<Rightarrow> all_empty n h c) subs"
        by simp
      ultimately show ?thesis
        using Suc.IH [of c] by (auto simp: list_all_iff)
    qed
  qed
qed

lemma concat_map_mono:
  "set A \<subseteq> set B \<Longrightarrow> set (concat (map f A)) \<subseteq> set (concat (map f B))"
  by auto

lemma contents_same:
  "cleared h h' \<Longrightarrow>
   \<forall>l \<in> set (leaves n h x). lookup (coll_store h') l = lookup (coll_store h) l \<Longrightarrow>
   \<forall>e \<in> set (concat (map (cell_events h) (leaves n h x))).
      lookup (event_store h') e = lookup (event_store h) e \<Longrightarrow>
   contents n h' x = contents n h x"
proof (induction n arbitrary: x)
  case 0
  then show ?case by simp
next
  case (Suc n)
  show ?case
  proof (cases "lookup (coll_store h) x")
    case None
    with cleared_lookup_None [OF Suc.prems(1)] show ?thesis by simp
  next
    case (Some cell)
    show ?thesis
    proof (cases cell)
      case (LeafEventCollection ow evs)
      with Some Suc.prems(2) have same: "lookup (coll_store h') x = Some (LeafEventCollection ow evs)"
        by simp
      from Some LeafEventCollection Suc.prems(3)
      have "map (lookup (event_store h')) evs = map (lookup (event_store h)) evs"
        by (simp add: cell_events_def)
      with Some LeafEventCollection same show ?thesis
        by simp
    next
      case (DiagramEventCollection subs owned)
      have "contents n h' c = contents n h c" if "Some c \<in> set subs" for c
      proof (rule Suc.IH [OF Suc.prems(1)])
        from that Some DiagramEventCollection
        have sub: "set (leaves n h c) \<subseteq> set (leaves (Suc n) h x)"
          by (auto intro!: bexI [of _ "Some c"])
        with Suc.prems(2)
        show "\<forall>l \<in> set (leaves n h c). lookup (coll_store h') l = lookup (coll_store h) l"
          by blast
        from sub have "set (concat (map (cell_events h) (leaves n h c)))
            \<subseteq> set (concat (map (cell_events h) (leaves (Suc n) h x)))"
          by (rule concat_map_mono)
        with Suc.prems(3)
        show "\<forall>e \<in> set (concat (map (cell_events h) (leaves n h c))).
            lookup (event_store h') e = lookup (event_store h) e"
          by blast
      qed
      then have "map (\<lambda>s. case s of None \<Rightarrow> Invalid | Some c \<Rightarrow> contents n h' c) subs
          = map (\<lambda>s. case s of None \<Rightarrow> Invalid | Some c \<Rightarrow> contents n h c) subs"
        by (auto split: option.splits)
      with Some DiagramEventCollection cleared_lookup [OF Suc.prems(1), of x subs owned]
      show ?thesis
        by simp
    qed
  qed
qed

lemma map_snd_zip_fun:
  "length xs = length ys \<Longrightarrow> map (\<lambda>p. g (snd p)) (zip xs ys) = map g ys"
proof -
  assume "length xs = length ys"
  then have "map g (map snd (zip xs ys)) = map g ys"
    by simp
  then show ?thesis
    by (simp add: comp_def)
qed

lemma append_contents_empty:
  "all_empty n h a \<Longrightarrow> same_shape n h a b \<Longrightarrow>
     append_contents (contents n h a) (contents n h b) = contents n h b"
proof (induction n arbitrary: a b)
  case 0
  then show ?case by simp
next
  case (Suc n)
  show ?case
  proof (cases "lookup (coll_store h) a")
    case None
    with Suc.prems show ?thesis by simp
  next
    case (Some cell)
    show ?thesis
    proof (cases cell)
      case (LeafEventCollection ow evs)
      with Some Suc.prems show ?thesis
        by (auto simp: is_leaf_def split: option.splits EventCollection.splits)
    next
      case (DiagramEventCollection subs owned)
      with Some Suc.prems(2) obtain osubs oowned where
        b: "lookup (coll_store h) b = Some (DiagramEventCollection osubs oowned)"
        and len: "length subs = length osubs"
        and all: "list_all (both (same_shape n h)) (zip subs osubs)"
        by (auto split: option.splits EventCollection.splits)
      from Some DiagramEventCollection Suc.prems(1)
      have empty: "list_all (\<lambda>s. case s of None \<Rightarrow> False | Some c \<Rightarrow> all_empty n h c) subs"
        by simp
      let ?C = "case_option Invalid (contents n h)"
      have "append_contents (?C (fst p)) (?C (snd p)) = ?C (snd p)"
        if p: "p \<in> set (zip subs osubs)" for p
      proof -
        from all p have "both (same_shape n h) p"
          by (simp add: list_all_iff)
        then obtain c d where cd: "p = (Some c, Some d)" "same_shape n h c d"
          unfolding both_Some by blast
        with p have "Some c \<in> set subs"
          by (auto dest: set_zip_leftD)
        with empty have "all_empty n h c"
          by (auto simp: list_all_iff)
        from Suc.IH [OF this cd(2)] cd(1) show ?thesis
          by simp
      qed
      then have "map (\<lambda>p. append_contents (?C (fst p)) (?C (snd p))) (zip subs osubs)
          = map (\<lambda>p. ?C (snd p)) (zip subs osubs)"
        by simp
      also have "\<dots> = map ?C osubs"
        by (rule map_snd_zip_fun [OF len])
      finally show ?thesis
        using Some DiagramEventCollection b append_Children [OF len, of ?C] by simp
    qed
  qed
qed

lemma SetFrom_settable:
  assumes "settable n h a b"
  shows "\<exists>h'. SetFrom n a b h = Ok () h'
     \<and> contents n h' a = contents n h b \<and> contents n h' b = contents n h b"
proof -
  define La where "La = leaves n h a"
  define Lb where "Lb = leaves n h b"
  define Oa where "Oa = concat (map (cell_owned h) La)"
  define Eb where "Eb = concat (map (cell_events h) Lb)"
  from assms have shape: "same_shape n h a b" and dist: "distinct La"
    and disj: "set La \<inter> set Lb = {}"
    and live: "\<forall>l \<in> set Lb. events_live h l"
    and own: "set Oa \<inter> set Eb = {}"
    by (simp_all add: settable_def list_all_iff La_def Lb_def Oa_def Eb_def)
  from Clear_populated [OF same_shape_populated [OF shape]] obtain h1 where
    r1: "Clear n a h = Ok () h1" and empty: "all_empty n h1 a"
    by blast
  from Clear_frame [OF r1] have cl: "cleared h h1"
    and fc: "\<forall>x. x \<notin> set La \<longrightarrow> lookup (coll_store h1) x = lookup (coll_store h) x"
    and fe: "\<forall>e. e \<notin> set Oa \<longrightarrow> lookup (event_store h1) e = lookup (event_store h) e"
    unfolding La_def Oa_def by simp_all
  have la: "leaves n h1 a = La" and lb: "leaves n h1 b = Lb"
    using leaves_cleared [OF cl] by (simp_all add: La_def Lb_def)
  have cells_b: "\<forall>l \<in> set Lb. lookup (coll_store h1) l = lookup (coll_store h) l"
    using fc disj by auto
  have events_b: "\<forall>e \<in> set Eb. lookup (event_store h1) e = lookup (event_store h) e"
    using fe own by auto
  have cb: "contents n h1 b = contents n h b"
    by (rule contents_same [OF cl]) (use cells_b events_b in \<open>simp_all add: Lb_def Eb_def\<close>)
  have live_a: "events_live h1 l" if "l \<in> set La" for l
    using all_empty_leaves [OF empty, of l] that la
    by (auto simp: events_live_def cell_events_def split: option.splits EventCollection.splits)
  have live_b: "events_live h1 l" if l: "l \<in> set Lb" for l
  proof (cases "lookup (coll_store h) l")
    case None
    with cells_b l show ?thesis
      by (simp add: events_live_def)
  next
    case (Some cell)
    show ?thesis
    proof (cases cell)
      case (LeafEventCollection ow evs)
      with Some l have "set evs \<subseteq> set Eb"
        by (auto simp: Eb_def cell_events_def intro!: bexI [of _ l])
      with events_b have "\<forall>e \<in> set evs. lookup (event_store h1) e = lookup (event_store h) e"
        by auto
      moreover from live l Some LeafEventCollection
      have "\<forall>e \<in> set evs. lookup (event_store h) e \<noteq> None"
        by (auto simp: events_live_def list_all_iff)
      ultimately show ?thesis
        using cells_b l Some LeafEventCollection
        by (auto simp: events_live_def list_all_iff)
    next
      case (DiagramEventCollection subs owned)
      with Some cells_b l show ?thesis
        by (simp add: events_live_def)
    qed
  qed
  have "mergeable n h1 a b"
    unfolding mergeable_def la lb
    using same_shape_cleared [OF cl shape] dist disj live_a live_b
    by (auto simp: list_all_iff)
  from mergeable_merge [OF this] obtain h' where
    r2: "AddToEnd n a b h1 = Ok () h'"
    and ca: "contents n h' a = append_contents (contents n h1 a) (contents n h1 b)"
    and cb': "contents n h' b = contents n h1 b"
    by blast
  from append_contents_empty [OF empty same_shape_cleared [OF cl shape]] ca cb
  have "contents n h' a = contents n h b"
    by simp
  moreover from r1 r2 have "SetFrom n a b h = Ok () h'"
    by (simp add: SetFrom_def)
  ultimately show ?thesis
    using cb cb' by simp
qed

lemma in_kind_SetFrom:
  assumes "settable n (kind_heap k h) x y"
  shows "\<exists>kh. in_kind k (SetFrom n x y) h = Ok () (set_kind_heap k kh h)
     \<and> contents n kh x = contents n (kind_heap k h) y"
  using SetFrom_settable [OF assms] by (auto simp: in_kind_def)

lemma bundle_SetFrom:
  assumes x: "lookup (composite_store h) x = Some cx"
    and y: "lookup (composite_store h) y = Some cy"
    and m: "\<And>k. settable n (kind_heap k h) (kind_events k cx) (kind_events k cy)"
  shows "\<exists>h'. SetFrom_composite n x y h = Ok () h'
     \<and> (\<forall>k. contents n (kind_heap k h') (kind_events k cx)
          = contents n (kind_heap k h) (kind_events k cy))"
proof -
  from in_kind_SetFrom [OF m [of Publish]] obtain kp where
    kp: "in_kind Publish (SetFrom n (publish_events cx) (publish_events cy)) h
        = Ok () (set_kind_heap Publish kp h)"
      "contents n kp (publish_events cx) = contents n (publish_heap h) (publish_events cy)"
    by auto
  let ?h1 = "set_kind_heap Publish kp h"
  have "settable n (kind_heap DiscreteUpdate ?h1)
      (kind_events DiscreteUpdate cx) (kind_events DiscreteUpdate cy)"
    using m [of DiscreteUpdate] by simp
  from in_kind_SetFrom [OF this] obtain kd where
    kd: "in_kind DiscreteUpdate
          (SetFrom n (discrete_update_events cx) (discrete_update_events cy)) ?h1
        = Ok () (set_kind_heap DiscreteUpdate kd ?h1)"
      "contents n kd (discrete_update_events cx)
        = contents n (discrete_update_heap h) (discrete_update_events cy)"
    by auto
  let ?h2 = "set_kind_heap DiscreteUpdate kd ?h1"
  have "settable n (kind_heap UnrestrictedUpdate ?h2)
      (kind_events UnrestrictedUpdate cx) (kind_events UnrestrictedUpdate cy)"
    using m [of UnrestrictedUpdate] by simp
  from in_kind_SetFrom [OF this] obtain ku where
    ku: "in_kind UnrestrictedUpdate
          (SetFrom n (unrestricted_update_events cx) (unrestricted_update_events cy)) ?h2
        = Ok () (set_kind_heap UnrestrictedUpdate ku ?h2)"
      "contents n ku (unrestricted_update_events cx)
        = contents n (unrestricted_update_heap h) (unrestricted_update_events cy)"
    by auto
  let ?h3 = "set_kind_heap UnrestrictedUpdate ku ?h2"
  have "SetFrom_composite n x y h = Ok () ?h3"
    using x y kp(1) kd(1) ku(1) by (simp add: SetFrom_composite_def)
  moreover have "\<forall>k. contents n (kind_heap k ?h3) (kind_events k cx)
          = contents n (kind_heap k h) (kind_events k cy)"
    using kp(2) kd(2) ku(2) by (simp add: Kind_all)
  ultimately show ?thesis
    by blast
qed

lemma SetFrom_composite_iff:
  "(SetFrom_composite n x y h = Ok () h')
      = (and_then (Clear_composite n x h) (\<lambda>_. AddToEnd_composite n x y) = Ok () h')"
proof (cases "lookup (composite_store h) x")
  case None
  then show ?thesis
    by (simp add: SetFrom_composite_def Clear_composite_def)
next
  case x: (Some cx)
  show ?thesis
  proof (cases "lookup (composite_store h) y")
    case None
    with x show ?thesis
      by (auto simp: SetFrom_composite_def Clear_composite_def AddToEnd_composite_def
          and_then_Ok_iff in_kind_Ok)
  next
    case y: (Some cy)
    let ?p = "publish_events cx" and ?d = "discrete_update_events cx"
      and ?u = "unrestricted_update_events cx"
    let ?p' = "publish_events cy" and ?d' = "discrete_update_events cy"
      and ?u' = "unrestricted_update_events cy"
    have L: "(SetFrom_composite n x y h = Ok () h') \<longleftrightarrow>
      (\<exists>p1 p2 d1 d2 u1 u2.
         Clear n ?p (publish_heap h) = Ok () p1 \<and> AddToEnd n ?p ?p' p1 = Ok () p2
       \<and> Clear n ?d (discrete_update_heap h) = Ok () d1 \<and> AddToEnd n ?d ?d' d1 = Ok () d2
       \<and> Clear n ?u (unrestricted_update_heap h) = Ok () u1 \<and> AddToEnd n ?u ?u' u1 = Ok () u2
       \<and> h' = h\<lparr>publish_heap := p2, discrete_update_heap := d2,
             unrestricted_update_heap := u2\<rparr>)"
      using x y
      by (auto simp: SetFrom_composite_def SetFrom_def and_then_Ok_iff in_kind_Ok)
    have R: "(and_then (Clear_composite n x h) (\<lambda>_. AddToEnd_composite n x y) = Ok () h') \<longleftrightarrow>
      (\<exists>p1 p2 d1 d2 u1 u2.
         Clear n ?p (publish_heap h) = Ok () p1 \<and> AddToEnd n ?p ?p' p1 = Ok () p2
       \<and> Clear n ?d (discrete_update_heap h) = Ok () d1 \<and> AddToEnd n ?d ?d' d1 = Ok () d2
       \<and> Clear n ?u (unrestricted_update_heap h) = Ok () u1 \<and> AddToEnd n ?u ?u' u1 = Ok () u2
       \<and> h' = h\<lparr>publish_heap := p2, discrete_update_heap := d2,
             unrestricted_update_heap := u2\<rparr>)"
      using x y
      by (auto simp: Clear_composite_def AddToEnd_composite_def and_then_Ok_iff in_kind_Ok)
    from L R show ?thesis
      by simp
  qed
qed


text \<open>
  C5. \<^verbatim>\<open>SetFrom\<close> on a collection is \<^verbatim>\<open>Clear\<close> followed by \<^verbatim>\<open>AddToEnd\<close>. On a
  bundle, \<^verbatim>\<open>SetFrom\<close> returns with a heap exactly when \<^verbatim>\<open>Clear\<close> followed by
  \<^verbatim>\<open>AddToEnd\<close> returns with that heap. On a collection or a bundle that can be set
  from the other, both return, with one heap, in which the receiver holds what the
  other holds.
\<close>

theorem SetFrom_is_Clear_then_AddToEnd:
  "SetFrom n a b kh = and_then (Clear n a kh) (\<lambda>_. AddToEnd n a b)
   \<and> ((SetFrom_composite n x y h = Ok () h')
      = (and_then (Clear_composite n x h) (\<lambda>_. AddToEnd_composite n x y) = Ok () h'))
   \<and> (settable n kh a b \<longrightarrow>
        (\<exists>kh'. SetFrom n a b kh = Ok () kh'
           \<and> and_then (Clear n a kh) (\<lambda>_. AddToEnd n a b) = Ok () kh'
           \<and> contents n kh' a = contents n kh b
           \<and> contents n kh' b = contents n kh b))
   \<and> (lookup (composite_store h) x = Some cx \<and> lookup (composite_store h) y = Some cy
        \<and> (\<forall>k. settable n (kind_heap k h) (kind_events k cx) (kind_events k cy)) \<longrightarrow>
        (\<exists>h''. SetFrom_composite n x y h = Ok () h''
           \<and> and_then (Clear_composite n x h) (\<lambda>_. AddToEnd_composite n x y) = Ok () h''
           \<and> (\<forall>k. contents n (kind_heap k h'') (kind_events k cx)
                = contents n (kind_heap k h) (kind_events k cy))))"
proof (intro conjI impI)
  show eq: "SetFrom n a b kh = and_then (Clear n a kh) (\<lambda>_. AddToEnd n a b)"
    by (simp add: SetFrom_def)
  show "(SetFrom_composite n x y h = Ok () h')
      = (and_then (Clear_composite n x h) (\<lambda>_. AddToEnd_composite n x y) = Ok () h')"
    by (rule SetFrom_composite_iff)
  show "\<exists>kh'. SetFrom n a b kh = Ok () kh'
           \<and> and_then (Clear n a kh) (\<lambda>_. AddToEnd n a b) = Ok () kh'
           \<and> contents n kh' a = contents n kh b
           \<and> contents n kh' b = contents n kh b" if "settable n kh a b"
    using SetFrom_settable [OF that] eq by auto
  show "\<exists>h''. SetFrom_composite n x y h = Ok () h''
           \<and> and_then (Clear_composite n x h) (\<lambda>_. AddToEnd_composite n x y) = Ok () h''
           \<and> (\<forall>k. contents n (kind_heap k h'') (kind_events k cx)
                = contents n (kind_heap k h) (kind_events k cy))"
    if "lookup (composite_store h) x = Some cx \<and> lookup (composite_store h) y = Some cy
        \<and> (\<forall>k. settable n (kind_heap k h) (kind_events k cx) (kind_events k cy))"
    using bundle_SetFrom [of h x cx y cy n] that SetFrom_composite_iff [of n x y h]
    by metis
qed

theorem SetFrom_is_Clear_then_AddToEnd_witness:
  "settable (Suc (Suc 0)) example_kheap 6 2
   \<and> (\<exists>kh'. SetFrom (Suc (Suc 0)) 6 2 example_kheap = Ok () kh'
      \<and> and_then (Clear (Suc (Suc 0)) 6 example_kheap) (\<lambda>_. AddToEnd (Suc (Suc 0)) 6 2)
          = Ok () kh'
      \<and> contents (Suc (Suc 0)) kh' 6 = Children
          [Events [Some \<lparr>trigger_type = kPeriodic, event_data = Some 1, callback = Some 1\<rparr>,
             Some \<lparr>trigger_type = kPerStep, event_data = Some 2, callback = Some 2\<rparr>],
           Events [Some \<lparr>trigger_type = kForced, event_data = None, callback = None\<rparr>]])
   \<and> settable (Suc (Suc 0)) example_kheap 2 6
   \<and> (\<exists>h'. SetFrom_composite (Suc (Suc 0)) 2 5 example_heap = Ok () h'
      \<and> and_then (Clear_composite (Suc (Suc 0)) 2 example_heap)
          (\<lambda>_. AddToEnd_composite (Suc (Suc 0)) 2 5) = Ok () h'
      \<and> contents (Suc (Suc 0)) (publish_heap h') 2 = Children [Events [], Events []])"
proof -
  have s: "settable (Suc (Suc 0)) example_kheap 6 2"
    "settable (Suc (Suc 0)) example_kheap 2 6"
    by (simp_all add: settable_def cell_owned_def cell_events_def owned_by_def
        example_shape_simps)
  have c: "contents (Suc (Suc 0)) example_kheap 6 = Children [Events [], Events []]"
    "contents (Suc (Suc 0)) example_kheap 2 = Children
          [Events [Some \<lparr>trigger_type = kPeriodic, event_data = Some 1, callback = Some 1\<rparr>,
             Some \<lparr>trigger_type = kPerStep, event_data = Some 2, callback = Some 2\<rparr>],
           Events [Some \<lparr>trigger_type = kForced, event_data = None, callback = None\<rparr>]]"
    by (simp_all add: example_heap_simps)
  have cells: "lookup (composite_store example_heap) 2
        = Some (DiagramCompositeEventCollection 2 2 2 [Some 0, Some 1])
      \<and> lookup (composite_store example_heap) 5
        = Some (DiagramCompositeEventCollection 6 6 6 [Some 3, Some 4])
      \<and> (\<forall>k. settable (Suc (Suc 0)) (kind_heap k example_heap)
            (kind_events k (DiagramCompositeEventCollection 2 2 2 [Some 0, Some 1]))
            (kind_events k (DiagramCompositeEventCollection 6 6 6 [Some 3, Some 4])))"
    using s(2) by (simp add: Kind_all example_heap_def lookup_def)
  note T = SetFrom_is_Clear_then_AddToEnd
  from T [where n = "Suc (Suc 0)" and kh = example_kheap and a = 6 and b = 2,
      THEN conjunct2, THEN conjunct2, THEN conjunct1, rule_format, OF s(1)]
  have 1: "\<exists>kh'. SetFrom (Suc (Suc 0)) 6 2 example_kheap = Ok () kh'
      \<and> and_then (Clear (Suc (Suc 0)) 6 example_kheap) (\<lambda>_. AddToEnd (Suc (Suc 0)) 6 2)
          = Ok () kh'
      \<and> contents (Suc (Suc 0)) kh' 6 = Children
          [Events [Some \<lparr>trigger_type = kPeriodic, event_data = Some 1, callback = Some 1\<rparr>,
             Some \<lparr>trigger_type = kPerStep, event_data = Some 2, callback = Some 2\<rparr>],
           Events [Some \<lparr>trigger_type = kForced, event_data = None, callback = None\<rparr>]]"
    unfolding c by blast
  from T [where n = "Suc (Suc 0)" and h = example_heap and x = 2 and y = 5,
      THEN conjunct2, THEN conjunct2, THEN conjunct2, rule_format, OF cells]
  obtain h' where r: "SetFrom_composite (Suc (Suc 0)) 2 5 example_heap = Ok () h'"
    "and_then (Clear_composite (Suc (Suc 0)) 2 example_heap)
          (\<lambda>_. AddToEnd_composite (Suc (Suc 0)) 2 5) = Ok () h'"
    "\<forall>k. contents (Suc (Suc 0)) (kind_heap k h')
          (kind_events k (DiagramCompositeEventCollection 2 2 2 [Some 0, Some 1]))
        = contents (Suc (Suc 0)) (kind_heap k example_heap)
          (kind_events k (DiagramCompositeEventCollection 6 6 6 [Some 3, Some 4]))"
    by blast
  have ph: "publish_heap example_heap = example_kheap"
    by (simp add: example_heap_def)
  from r(3) [rule_format, of Publish]
  have "contents (Suc (Suc 0)) (publish_heap h') 2 = Children [Events [], Events []]"
    unfolding kind_heap.simps kind_events.simps CompositeEventCollection.sel ph c
    by simp
  with r(1,2) have 2: "\<exists>h'. SetFrom_composite (Suc (Suc 0)) 2 5 example_heap = Ok () h'
      \<and> and_then (Clear_composite (Suc (Suc 0)) 2 example_heap)
          (\<lambda>_. AddToEnd_composite (Suc (Suc 0)) 2 5) = Ok () h'
      \<and> contents (Suc (Suc 0)) (publish_heap h') 2 = Children [Events [], Events []]"
    by blast
  from s 1 2 show ?thesis
    by blast
qed

end
